theory Spec2Isabelle
  imports Complex_Main
begin

section \<open>The colour parser (\<open>extractColorAsRgb\<close>, index.ts lines 6-57)\<close>

text \<open>
  Strings are modelled as \<open>string\<close>, restricted to ASCII: the white space of
  \<open>trim\<close> and of the regular expression class \<open>\s\<close> is tab, line feed, vertical tab,
  form feed, carriage return and space, and \<open>toLowerCase\<close> maps \<open>A-Z\<close> to \<open>a-z\<close>.
\<close>

definition is_space :: "char \<Rightarrow> bool" where
  "is_space c = (c = CHR 0x09 \<or> c = CHR 0x0A \<or> c = CHR 0x0B \<or> c = CHR 0x0C
                 \<or> c = CHR 0x0D \<or> c = CHR '' '')"

definition is_digit :: "char \<Rightarrow> bool" where
  "is_digit c = (let n = (of_char c :: nat) in 48 \<le> n \<and> n \<le> 57)"

definition is_hex :: "char \<Rightarrow> bool" where
  \<comment> \<open>the class \<open>[a-f0-9]\<close>\<close>
  "is_hex c = (let n = (of_char c :: nat) in (97 \<le> n \<and> n \<le> 102) \<or> (48 \<le> n \<and> n \<le> 57))"

definition lower_char :: "char \<Rightarrow> char" where
  "lower_char c = (let n = (of_char c :: nat) in if 65 \<le> n \<and> n \<le> 90 then char_of (n + 32) else c)"

definition toLowerCase :: "string \<Rightarrow> string" where
  "toLowerCase s = map lower_char s"

definition trim :: "string \<Rightarrow> string" where
  "trim s = rev (dropWhile is_space (rev (dropWhile is_space s)))"

definition substring :: "string \<Rightarrow> nat \<Rightarrow> nat \<Rightarrow> string" where
  \<comment> \<open>\<open>s.substring(i, j)\<close> for \<open>i \<le> j\<close>; indices beyond the end are clipped\<close>
  "substring s i j = take (j - i) (drop i s)"

text \<open>
  The result of \<open>parseInt\<close>: \<open>NaN\<close> when no digit can be read. The program passes to
  \<open>parseInt\<close> only runs of decimal digits (the groups of the two \<open>rgb\<close> expressions) and
  two-character pieces of a string made of white space, \<open>#\<close> and hexadecimal digits, so
  the sign and the \<open>0x\<close> prefix that \<open>parseInt\<close> also accepts cannot occur and are not
  modelled.
\<close>

datatype parsed = NaN | Num nat

definition digit_of :: "nat \<Rightarrow> char \<Rightarrow> nat option" where
  "digit_of radix c =
     (let n = (of_char c :: nat);
          v = (if 48 \<le> n \<and> n \<le> 57 then Some (n - 48)
               else if 97 \<le> n \<and> n \<le> 122 then Some (n - 87)
               else if 65 \<le> n \<and> n \<le> 90 then Some (n - 55)
               else None)
      in case v of None \<Rightarrow> None | Some d \<Rightarrow> if d < radix then Some d else None)"

fun read_digits :: "nat \<Rightarrow> string \<Rightarrow> nat option \<Rightarrow> nat option" where
  "read_digits radix [] acc = acc"
| "read_digits radix (c # cs) acc =
     (case digit_of radix c of
        None \<Rightarrow> acc
      | Some d \<Rightarrow> read_digits radix cs (Some ((case acc of None \<Rightarrow> 0 | Some v \<Rightarrow> v) * radix + d)))"

definition parseInt :: "string \<Rightarrow> nat \<Rightarrow> parsed" where
  "parseInt s radix =
     (case read_digits radix (dropWhile is_space s) None of None \<Rightarrow> NaN | Some v \<Rightarrow> Num v)"

text \<open>
  The three regular expressions use only literals, an optional white space \<open>\s?\<close>, the
  capturing group \<open>([0-9]{1,3})\<close>, the class \<open>[a-f0-9]\<close> and the anchors. \<open>match_here\<close> is
  the backtracking matcher anchored at the start of its input: greedy alternatives are
  tried first (\<open>\s?\<close> takes a space before it tries none, the group takes three digits
  before two before one) and the first complete match gives the captured groups.
  \<open>search\<close> tries every start position from the left, as an unanchored expression does
  under \<open>String.prototype.replace\<close>.
\<close>

datatype rx = Lit string | OptSpace | Digits13 | Hex | End

fun first_some :: "'a option list \<Rightarrow> 'a option" where
  "first_some [] = None"
| "first_some (None # xs) = first_some xs"
| "first_some (Some x # xs) = Some x"

fun match_here :: "rx list \<Rightarrow> string \<Rightarrow> string list option" where
  "match_here [] s = Some []"
| "match_here (Lit p # rs) s =
     (if take (length p) s = p then match_here rs (drop (length p) s) else None)"
| "match_here (OptSpace # rs) s =
     (case s of
        [] \<Rightarrow> match_here rs s
      | c # cs \<Rightarrow>
          if is_space c
          then (case match_here rs cs of Some m \<Rightarrow> Some m | None \<Rightarrow> match_here rs s)
          else match_here rs s)"
| "match_here (Digits13 # rs) s =
     first_some (map (\<lambda>n. if n \<le> length s \<and> list_all is_digit (take n s)
                            then map_option ((#) (take n s)) (match_here rs (drop n s))
                            else None) [3, 2, 1])"
| "match_here (Hex # rs) s =
     (case s of [] \<Rightarrow> None | c # cs \<Rightarrow> if is_hex c then match_here rs cs else None)"
| "match_here (End # rs) s = (if s = [] then match_here rs s else None)"

fun search :: "rx list \<Rightarrow> string \<Rightarrow> string list option" where
  "search rs [] = match_here rs []"
| "search rs (c # cs) =
     (case match_here rs (c # cs) of Some m \<Rightarrow> Some m | None \<Rightarrow> search rs cs)"

definition rgba_rx :: "rx list" where
  \<comment> \<open>line 14: \<open>/rgb\s?\(([0-9]{1,3})\s?,\s?([0-9]{1,3})\s?,\s?([0-9]{1,3}),\s?([0-9]{1,3})\s?\)/\<close>\<close>
  "rgba_rx = [Lit ''rgb'', OptSpace, Lit ''('', Digits13, OptSpace, Lit '','', OptSpace,
              Digits13, OptSpace, Lit '','', OptSpace, Digits13, Lit '','', OptSpace,
              Digits13, OptSpace, Lit '')'']"

definition rgb_rx :: "rx list" where
  \<comment> \<open>line 29: \<open>/rgb\s?\(([0-9]{1,3})\s?,\s?([0-9]{1,3})\s?,\s?([0-9]{1,3})\s?\)/\<close>\<close>
  "rgb_rx = [Lit ''rgb'', OptSpace, Lit ''('', Digits13, OptSpace, Lit '','', OptSpace,
             Digits13, OptSpace, Lit '','', OptSpace, Digits13, OptSpace, Lit '')'']"

definition hex_rx :: "rx list" where
  \<comment> \<open>line 42: \<open>/^#[a-f0-9]{6}$/\<close>\<close>
  "hex_rx = [Lit ''#'', Hex, Hex, Hex, Hex, Hex, Hex, End]"

record IRgbColor =
  rgb_r :: parsed
  rgb_g :: parsed
  rgb_b :: parsed
  rgb_a :: "parsed option"

datatype color_error = FormatNotRecognized

definition extractColorAsRgb :: "string \<Rightarrow> color_error + IRgbColor" where
  "extractColorAsRgb color =
     (let formattedColor = trim (toLowerCase color) in
      case search rgba_rx formattedColor of
        Some [c1, c2, c3, c4] \<Rightarrow>
          Inr \<lparr>rgb_r = parseInt c1 10, rgb_g = parseInt c2 10, rgb_b = parseInt c3 10,
               rgb_a = Some (parseInt c4 10)\<rparr>
      | _ \<Rightarrow>
       (case search rgb_rx formattedColor of
          Some [c1, c2, c3] \<Rightarrow>
            Inr \<lparr>rgb_r = parseInt c1 10, rgb_g = parseInt c2 10, rgb_b = parseInt c3 10,
                 rgb_a = None\<rparr>
        | _ \<Rightarrow>
          if match_here hex_rx formattedColor \<noteq> None
          then Inr \<lparr>rgb_r = parseInt (substring color 1 3) 16,
                    rgb_g = parseInt (substring color 3 5) 16,
                    rgb_b = parseInt (substring color 5 7) 16,
                    rgb_a = None\<rparr>
          else Inl FormatNotRecognized))"


section \<open>The animation iterator (index.ts lines 73-248)\<close>

text \<open>
  Numbers. The numbers of the program are doubles. The time step, the rate, the clock
  readings and the elapsed time are modelled as real numbers: every finite double is
  one, and a constant such as \<open>1 / 180\<close> is modelled by the real number it denotes. The
  sum of line 185, which the program computes tick after tick, is rounded as the sum of
  two doubles is (\<open>add_double\<close> below). The progress that an update function returns is
  any number, \<open>NaN\<close> included: \<open>number\<close> adds \<open>NaN\<close> to the reals, and \<open>num_ge\<close>, \<open>num_le\<close> and
  \<open>num_gt\<close> are the comparisons \<open>>=\<close>, \<open><=\<close> and \<open>>\<close> of the language, which are false as
  soon as one operand is \<open>NaN\<close>. Infinite values are not modelled. The one place where an
  infinite value arises from finite input is the division \<open>1000 / this.rate\<close> for a rate
  of zero, which the program evaluates to \<open>Infinity\<close>; it is written out in \<open>due\<close>.
\<close>

datatype number = NotANumber | Finite real

fun num_ge :: "number \<Rightarrow> number \<Rightarrow> bool" where
  "num_ge (Finite x) (Finite y) = (x \<ge> y)"
| "num_ge NotANumber y = False"
| "num_ge (Finite x) NotANumber = False"

fun num_le :: "number \<Rightarrow> number \<Rightarrow> bool" where
  "num_le (Finite x) (Finite y) = (x \<le> y)"
| "num_le NotANumber y = False"
| "num_le (Finite x) NotANumber = False"

fun num_gt :: "number \<Rightarrow> number \<Rightarrow> bool" where
  "num_gt (Finite x) (Finite y) = (x > y)"
| "num_gt NotANumber y = False"
| "num_gt (Finite x) NotANumber = False"

record IAnimationIteratorFuncResult =
  styles :: "(string \<times> string) list"
  res_progress :: number

type_synonym 'i TAnimationIteratorFunc = "'i \<Rightarrow> real \<Rightarrow> IAnimationIteratorFuncResult"

record 'i IAnimationIteratorArgs =
  arg_rate :: "real option"
  arg_interval :: "real option"
  arg_time :: "real option"
  arg_func :: "'i TAnimationIteratorFunc option"
  arg_function :: "'i TAnimationIteratorFunc option"

text \<open>
  A listener callback is foreign code. The model covers callbacks that, when invoked,
  make a fixed sequence of calls on the registry of the iterator that notifies them:
  they invoke the unsubscribe closure of a slot, or subscribe a further callback. The
  natural number of a \<open>Listener\<close> only tells callbacks apart; a \<open>Listener\<close> with an empty
  body is an observer such as the one \<open>createElementSub\<close> returns. \<open>Completion i p\<close> is the
  closure that \<open>start\<close> subscribes (lines 240-245): \<open>i\<close> is the slot captured by its
  \<open>unsubscribe\<close> and \<open>p\<close> identifies the promise whose \<open>resolve\<close> it holds. Callbacks that
  throw, that call \<open>reset\<close>, \<open>resetListeners\<close>, \<open>next\<close> or \<open>start\<close>, or that assign to the
  state object they receive are outside the model.
\<close>

datatype callback = Listener nat "action list" | Completion nat nat
  and action = Unsubscribe nat | Subscribe callback

record 'i AnimationIterator =
  args :: "'i IAnimationIteratorArgs"
  interval :: real
  rate :: real
  progress :: number
  time :: real
  lastTick :: real
  func :: "'i TAnimationIteratorFunc"
  listeners :: "callback option list"

text \<open>
  \<open>listeners\<close> is the sparse array \<open>this.listeners\<close>: \<open>None\<close> is a hole left by \<open>delete\<close>,
  \<open>Some cb\<close> the listener object \<open>{callback: cb}\<close>. \<open>args\<close> is the configuration object that
  the closure \<open>reset\<close> captured in the constructor.
\<close>

definition DEFAULT_STEP_INTERVAL :: real where "DEFAULT_STEP_INTERVAL = 1 / 180"
definition DEFAULT_FRAME_RATE :: real where "DEFAULT_FRAME_RATE = 60"
definition DEFAULT_PROGRESS :: number where "DEFAULT_PROGRESS = Finite 0"
definition DEFAULT_TIME :: real where "DEFAULT_TIME = 0"
definition DEFAULT_LAST_TICK :: real where "DEFAULT_LAST_TICK = 0"

definition DEFAULT_FUNC :: "'i TAnimationIteratorFunc" where
  "DEFAULT_FUNC initialState t = \<lparr>styles = [], res_progress = Finite t\<rparr>"

definition conditionalDefault :: "'a option \<Rightarrow> 'a \<Rightarrow> 'a" where
  \<comment> \<open>\<open>None\<close> stands for both \<open>undefined\<close> and \<open>null\<close>\<close>
  "conditionalDefault v defaultValue = (case v of None \<Rightarrow> defaultValue | Some x \<Rightarrow> x)"

definition or_else :: "'a option \<Rightarrow> 'a option \<Rightarrow> 'a option" where
  \<comment> \<open>\<open>args.func || args.function\<close>: a function is truthy\<close>
  "or_else x y = (case x of None \<Rightarrow> y | Some v \<Rightarrow> Some v)"

definition reset :: "'i AnimationIterator \<Rightarrow> 'i AnimationIterator" where
  "reset this =
     this\<lparr>interval := conditionalDefault (arg_interval (args this)) DEFAULT_STEP_INTERVAL,
          rate := conditionalDefault (arg_rate (args this)) DEFAULT_FRAME_RATE,
          func := conditionalDefault (or_else (arg_func (args this)) (arg_function (args this)))
                    DEFAULT_FUNC,
          progress := DEFAULT_PROGRESS,
          time := DEFAULT_TIME,
          lastTick := DEFAULT_LAST_TICK\<rparr>"

definition new_AnimationIterator :: "'i IAnimationIteratorArgs \<Rightarrow> 'i AnimationIterator" where
  \<comment> \<open>the field initialisers of lines 131-137, then the constructor body\<close>
  "new_AnimationIterator a =
     reset \<lparr>args = a, interval = DEFAULT_STEP_INTERVAL, rate = DEFAULT_FRAME_RATE,
            progress = DEFAULT_PROGRESS, time = DEFAULT_TIME, lastTick = DEFAULT_LAST_TICK,
            func = DEFAULT_FUNC, listeners = []\<rparr>"

definition resetListeners :: "'i AnimationIterator \<Rightarrow> 'i AnimationIterator" where
  "resetListeners this = this\<lparr>listeners := []\<rparr>"

definition resetAll :: "'i AnimationIterator \<Rightarrow> 'i AnimationIterator" where
  "resetAll this = resetListeners (reset this)"

text \<open>
  \<open>subscribe\<close>: the loop of lines 214-221 looks for the first index whose slot is falsy
  (\<open>empty_slot\<close>); without one the listener is pushed. The closure it returns is
  \<open>delete this.listeners[i]\<close> for the index it used, so the model returns that index and
  \<open>unsubscribe i\<close> is a call of the closure. \<open>delete\<close> leaves the length of the array as it
  is, and does nothing for an index beyond it.
\<close>

fun empty_slot :: "callback option list \<Rightarrow> nat option" where
  "empty_slot [] = None"
| "empty_slot (None # ls) = Some 0"
| "empty_slot (Some cb # ls) = map_option Suc (empty_slot ls)"

definition free_slot :: "callback option list \<Rightarrow> nat" where
  "free_slot ls = (case empty_slot ls of Some i \<Rightarrow> i | None \<Rightarrow> length ls)"

definition subscribe :: "callback \<Rightarrow> 'i AnimationIterator \<Rightarrow> nat \<times> 'i AnimationIterator" where
  "subscribe cb this =
     (case empty_slot (listeners this) of
        Some i \<Rightarrow> (i, this\<lparr>listeners := (listeners this)[i := Some cb]\<rparr>)
      | None \<Rightarrow> (length (listeners this), this\<lparr>listeners := listeners this @ [Some cb]\<rparr>))"

definition unsubscribe :: "nat \<Rightarrow> 'i AnimationIterator \<Rightarrow> 'i AnimationIterator" where
  "unsubscribe i this = this\<lparr>listeners := (listeners this)[i := None]\<rparr>"

text \<open>
  The host: \<open>frames\<close> holds the pending \<open>requestAnimationFrame\<close> callbacks, oldest first;
  each is \<open>() => this.next(initialState)\<close> and is kept as its \<open>initialState\<close>. \<open>promises\<close>
  counts the promises created by \<open>start\<close>. \<open>trace\<close> records, in order, every call of the
  update function, of a listener callback and of a promise's \<open>resolve\<close>. \<open>nearest\<close> is the
  rounding of the host's arithmetic, which takes a real number to the double nearest to
  it: the program adds doubles, and the sum of two doubles is their exact sum rounded.
  It is a parameter, and nothing is assumed of it.
\<close>

datatype 'i event =
    Update 'i real
  | Notified nat callback IAnimationIteratorFuncResult
  | Resolved nat IAnimationIteratorFuncResult

record 'i world =
  iter :: "'i AnimationIterator"
  frames :: "'i list"
  promises :: nat
  trace :: "'i event list"
  nearest :: "real \<Rightarrow> real"

definition emit :: "'i event \<Rightarrow> 'i world \<Rightarrow> 'i world" where
  "emit e w = w\<lparr>trace := trace w @ [e]\<rparr>"

definition requestAnimationFrame :: "'i \<Rightarrow> 'i world \<Rightarrow> 'i world" where
  "requestAnimationFrame initialState w = w\<lparr>frames := frames w @ [initialState]\<rparr>"

fun exec :: "action \<Rightarrow> 'i AnimationIterator \<Rightarrow> 'i AnimationIterator" where
  "exec (Unsubscribe i) this = unsubscribe i this"
| "exec (Subscribe cb) this = snd (subscribe cb this)"

fun invoke :: "callback \<Rightarrow> IAnimationIteratorFuncResult \<Rightarrow> 'i world \<Rightarrow> 'i world" where
  "invoke (Listener tag body) state w = w\<lparr>iter := fold exec body (iter w)\<rparr>"
| "invoke (Completion i p) state w =
     (if res_progress state = Finite 1
      then emit (Resolved p state) (w\<lparr>iter := unsubscribe i (iter w)\<rparr>)
      else w)"

text \<open>
  \<open>this.listeners.forEach\<close> (lines 195-199): the length is read once, before the first
  callback; index \<open>k\<close> is visited only if the array has the property \<open>k\<close> at that moment, so
  a hole is skipped, also one made earlier in the same pass.
\<close>

definition visit :: "nat \<Rightarrow> IAnimationIteratorFuncResult \<Rightarrow> 'i world \<Rightarrow> 'i world" where
  "visit k state w =
     (if k < length (listeners (iter w))
      then (case listeners (iter w) ! k of
              None \<Rightarrow> w
            | Some cb \<Rightarrow> invoke cb state (emit (Notified k cb state) w))
      else w)"

fun forEach_from :: "nat \<Rightarrow> nat \<Rightarrow> IAnimationIteratorFuncResult \<Rightarrow> 'i world \<Rightarrow> 'i world" where
  "forEach_from k 0 state w = w"
| "forEach_from k (Suc n) state w = forEach_from (Suc k) n state (visit k state w)"

definition forEach :: "IAnimationIteratorFuncResult \<Rightarrow> 'i world \<Rightarrow> 'i world" where
  "forEach state w = forEach_from 0 (length (listeners (iter w))) state w"

text \<open>
  \<open>next\<close> (lines 177-206). \<open>now\<close> and \<open>now'\<close> are the two readings of \<open>Date.now()\<close>, in the
  test and in the assignment to \<open>lastTick\<close>. For a rate of zero \<open>1000 / this.rate\<close> is
  \<open>Infinity\<close> and no reading passes the test. \<open>add_double\<close> is the \<open>+\<close> of line 185, on
  doubles: adding zero is exact, any other sum is rounded. The comparisons of lines 189,
  201 and 241 are false for a progress of \<open>NaN\<close>.
\<close>

definition add_double :: "'i world \<Rightarrow> real \<Rightarrow> real \<Rightarrow> real" where
  "add_double w a b = (if a = 0 then b else if b = 0 then a else nearest w (a + b))"

definition due :: "real \<Rightarrow> 'i AnimationIterator \<Rightarrow> bool" where
  "due now this = (rate this \<noteq> 0 \<and> now - lastTick this \<ge> 1000 / rate this)"

definition clamp :: "IAnimationIteratorFuncResult \<Rightarrow> IAnimationIteratorFuncResult" where
  "clamp nextState =
     (if num_ge (res_progress nextState) (Finite 1)
      then nextState\<lparr>res_progress := Finite 1\<rparr>
      else nextState)"

definition next_tick :: "real \<Rightarrow> real \<Rightarrow> 'i \<Rightarrow> 'i world \<Rightarrow> 'i world" where
  "next_tick now now' initialState w =
     (if due now (iter w)
      then
        (let t = add_double w (time (iter w)) (interval (iter w));
             nextState = clamp (func (iter w) initialState t);
             w1 = emit (Update initialState t)
                      (w\<lparr>iter := (iter w)\<lparr>lastTick := now', time := t,
                                           progress := res_progress nextState\<rparr>\<rparr>);
             w2 = forEach nextState w1
         in if num_ge (progress (iter w2)) (Finite 1) then w2
            else requestAnimationFrame initialState w2)
      else requestAnimationFrame initialState w)"

text \<open>
  \<open>start\<close> (lines 237-247): the promise executor runs at once. The callback it subscribes
  calls the \<open>unsubscribe\<close> that this very \<open>subscribe\<close> returns; the slot \<open>subscribe\<close> uses
  does not depend on the callback, so it is computed first. The result is the new
  promise.
\<close>

definition start :: "'i \<Rightarrow> 'i world \<Rightarrow> nat \<times> 'i world" where
  "start initialState w =
     (let p = promises w;
          w1 = requestAnimationFrame initialState (w\<lparr>promises := Suc p\<rparr>);
          i = free_slot (listeners (iter w1))
      in (p, w1\<lparr>iter := snd (subscribe (Completion i p) (iter w1))\<rparr>))"

text \<open>
  The host runs one pending frame callback at a time, oldest first; \<open>run\<close> takes the two
  clock readings of each.
\<close>

definition host_step :: "real \<times> real \<Rightarrow> 'i world \<Rightarrow> 'i world" where
  "host_step c w =
     (case frames w of
        [] \<Rightarrow> w
      | initialState # rest \<Rightarrow> next_tick (fst c) (snd c) initialState (w\<lparr>frames := rest\<rparr>))"

definition run :: "(real \<times> real) list \<Rightarrow> 'i world \<Rightarrow> 'i world" where
  "run cs w = fold host_step cs w"


section \<open>Notions used in the statements\<close>

text \<open>
  The events that a step from \<open>w\<close> to \<open>w'\<close> added to the trace; the listeners a trace
  shows as invoked, as slot and callback, in order; the number of accepted ticks in a
  trace (the calls of the update function); the calls of \<open>resolve\<close> in a trace, as promise
  and value, and the values passed to the \<open>resolve\<close> of promise \<open>p\<close>.
\<close>

definition emitted :: "'i world \<Rightarrow> 'i world \<Rightarrow> 'i event list" where
  "emitted w w' = drop (length (trace w)) (trace w')"

fun invoked :: "'i event list \<Rightarrow> (nat \<times> callback) list" where
  "invoked [] = []"
| "invoked (Notified k cb state # es) = (k, cb) # invoked es"
| "invoked (Update i t # es) = invoked es"
| "invoked (Resolved p state # es) = invoked es"

fun ticks :: "'i event list \<Rightarrow> nat" where
  "ticks [] = 0"
| "ticks (Update i t # es) = Suc (ticks es)"
| "ticks (Notified k cb state # es) = ticks es"
| "ticks (Resolved p state # es) = ticks es"

fun resolutions :: "'i event list \<Rightarrow> (nat \<times> IAnimationIteratorFuncResult) list" where
  "resolutions [] = []"
| "resolutions (Resolved p state # es) = (p, state) # resolutions es"
| "resolutions (Update i t # es) = resolutions es"
| "resolutions (Notified k cb state # es) = resolutions es"

definition fulfilments :: "nat \<Rightarrow> 'i event list \<Rightarrow> IAnimationIteratorFuncResult list" where
  "fulfilments p es = map snd (filter (\<lambda>x. fst x = p) (resolutions es))"

text \<open>
  The slots in which a registry holds a listener, in slot order, and subscribing a list
  of callbacks one after the other.
\<close>

definition occupied :: "callback option list \<Rightarrow> (nat \<times> callback) list" where
  "occupied ls = concat (map (\<lambda>j. case ls ! j of None \<Rightarrow> [] | Some cb \<Rightarrow> [(j, cb)]) [0..<length ls])"

definition subscribe_all :: "callback list \<Rightarrow> 'i AnimationIterator \<Rightarrow> 'i AnimationIterator" where
  "subscribe_all cbs this = fold (\<lambda>cb t. snd (subscribe cb t)) cbs this"

text \<open>
  Kinds of callbacks: observers, which leave the registry alone; callbacks that only call
  unsubscribe closures, with the slots a callback clears when invoked with a state; the
  calls that subscribe, with the callbacks a callback subscribes. \<open>meddles j p cb\<close>: the
  callback \<open>cb\<close>, or a callback it subscribes, holds the unsubscribe closure of slot \<open>j\<close> or
  the \<open>resolve\<close> of promise \<open>p\<close>.
\<close>

definition observer :: "callback \<Rightarrow> bool" where
  "observer cb = (case cb of Listener tag body \<Rightarrow> body = [] | Completion i p \<Rightarrow> False)"

fun is_unsub :: "action \<Rightarrow> bool" where
  "is_unsub (Unsubscribe i) = True"
| "is_unsub (Subscribe cb) = False"

fun unsubscribing :: "callback \<Rightarrow> bool" where
  "unsubscribing (Listener tag body) = list_all is_unsub body"
| "unsubscribing (Completion i p) = True"

fun slot_of :: "action \<Rightarrow> nat list" where
  "slot_of (Unsubscribe i) = [i]"
| "slot_of (Subscribe cb) = []"

fun clears :: "callback \<Rightarrow> IAnimationIteratorFuncResult \<Rightarrow> nat list" where
  "clears (Listener tag body) state = concat (map slot_of body)"
| "clears (Completion i p) state = (if res_progress state = Finite 1 then [i] else [])"




fun meddles :: "nat \<Rightarrow> nat \<Rightarrow> callback \<Rightarrow> bool"
  and meddles_act :: "nat \<Rightarrow> nat \<Rightarrow> action \<Rightarrow> bool" where
  "meddles j p (Listener tag body) = (\<exists>a \<in> set body. meddles_act j p a)"
| "meddles j p (Completion i q) = (i = j \<or> q = p)"
| "meddles_act j p (Unsubscribe i) = (i = j)"
| "meddles_act j p (Subscribe cb) = meddles j p cb"

text \<open>
  The elapsed time after \<open>n\<close> more accepted ticks, computed as the loop computes it, by
  adding the interval \<open>n\<close> times, and the state that the \<open>n\<close>-th accepted tick after \<open>w1\<close>
  passes to the listeners, for the animation of \<open>i0\<close>.
\<close>

fun elapsed :: "'i world \<Rightarrow> nat \<Rightarrow> real" where
  "elapsed w 0 = time (iter w)"
| "elapsed w (Suc n) = add_double w (elapsed w n) (interval (iter w))"

definition final_state :: "'i \<Rightarrow> 'i world \<Rightarrow> nat \<Rightarrow> IAnimationIteratorFuncResult" where
  "final_state i0 w1 n = clamp (func (iter w1) i0 (elapsed w1 n))"

text \<open>
  \<open>resolves p cb\<close>: the callback \<open>cb\<close>, or a callback it subscribes, holds the \<open>resolve\<close> of
  promise \<open>p\<close>. A registry is quiet for \<open>p\<close> if none of its listeners does.
\<close>

fun resolves :: "nat \<Rightarrow> callback \<Rightarrow> bool"
  and resolves_act :: "nat \<Rightarrow> action \<Rightarrow> bool" where
  "resolves p (Listener tag body) = (\<exists>a \<in> set body. resolves_act p a)"
| "resolves p (Completion i q) = (q = p)"
| "resolves_act p (Unsubscribe i) = False"
| "resolves_act p (Subscribe cb) = resolves p cb"

definition quiet :: "nat \<Rightarrow> callback option list \<Rightarrow> bool" where
  "quiet p ls = (\<forall>cb. Some cb \<in> set ls \<longrightarrow> \<not> resolves p cb)"

text \<open>
  What a page can do with an iterator: let the host run a frame callback, and call
  \<open>start\<close>, \<open>reset\<close>, \<open>resetListeners\<close>, \<open>resetAll\<close>, \<open>subscribe\<close> or an unsubscribe closure.
  The \<open>resolve\<close> of a promise is known to nobody but the listener that \<open>start\<close> made for it,
  so a page that subscribes a callback is permitted only a callback that does not hold
  it.
\<close>

datatype 'i page_action =
    Frame "real \<times> real"
  | Start 'i
  | Reset
  | ResetListeners
  | ResetAll
  | Sub callback
  | Unsub nat

fun act :: "'i page_action \<Rightarrow> 'i world \<Rightarrow> 'i world" where
  "act (Frame c) w = host_step c w"
| "act (Start i) w = snd (start i w)"
| "act Reset w = w\<lparr>iter := reset (iter w)\<rparr>"
| "act ResetListeners w = w\<lparr>iter := resetListeners (iter w)\<rparr>"
| "act ResetAll w = w\<lparr>iter := resetAll (iter w)\<rparr>"
| "act (Sub cb) w = w\<lparr>iter := snd (subscribe cb (iter w))\<rparr>"
| "act (Unsub i) w = w\<lparr>iter := unsubscribe i (iter w)\<rparr>"

fun permitted :: "nat \<Rightarrow> 'i page_action \<Rightarrow> bool" where
  "permitted p (Sub cb) = (\<not> resolves p cb)"
| "permitted p (Frame c) = True"
| "permitted p (Start i) = True"
| "permitted p Reset = True"
| "permitted p ResetListeners = True"
| "permitted p ResetAll = True"
| "permitted p (Unsub i) = True"




text \<open>
  A progress that does not decrease from elapsed time \<open>t0\<close> on, in the order \<open><=\<close> of the
  language (so it is never \<open>NaN\<close> there).
\<close>

definition non_decreasing_from :: "real \<Rightarrow> (real \<Rightarrow> number) \<Rightarrow> bool" where
  "non_decreasing_from t0 f = (\<forall>t t'. t0 \<le> t \<and> t \<le> t' \<longrightarrow> num_le (f t) (f t'))"

text \<open>
  What the statement on the growth of the elapsed time uses of the host's rounding: it
  is monotone, and it leaves its own results as they are. A number is a double when the
  rounding leaves it as it is.
\<close>

definition rounding :: "(real \<Rightarrow> real) \<Rightarrow> bool" where
  "rounding r = ((\<forall>x. r (r x) = r x) \<and> (\<forall>x y. x \<le> y \<longrightarrow> r x \<le> r y))"

definition is_double :: "'i world \<Rightarrow> real \<Rightarrow> bool" where
  "is_double w x = (nearest w x = x)"

text \<open>
  Clock readings under which every frame is accepted: each frame is run at least \<open>d\<close>
  milliseconds after the reading that the tick before it stored in \<open>lastTick\<close>.
\<close>

fun spaced :: "real \<Rightarrow> real \<Rightarrow> (real \<times> real) list \<Rightarrow> bool" where
  "spaced prev d [] = True"
| "spaced prev d (c # cs) = (fst c - prev \<ge> d \<and> spaced (snd c) d cs)"


section \<open>The notification pass and the loop as functions of the registry\<close>

text \<open>
  What the registry calls of a callback and a whole pass do to the array alone, and the
  events they add to the trace: \<open>forEach_from_eq\<close> below shows that \<open>forEach_from\<close> computes
  exactly these. Then the listeners a pass invokes and the calls of \<open>resolve\<close> it makes.
\<close>

fun reg_exec :: "action \<Rightarrow> callback option list \<Rightarrow> callback option list" where
  "reg_exec (Unsubscribe i) ls = ls[i := None]"
| "reg_exec (Subscribe cb) ls = (case empty_slot ls of Some i \<Rightarrow> ls[i := Some cb] | None \<Rightarrow> ls @ [Some cb])"

fun cb_reg :: "callback \<Rightarrow> IAnimationIteratorFuncResult \<Rightarrow> callback option list \<Rightarrow> callback option list" where
  "cb_reg (Listener tag body) state ls = fold reg_exec body ls"
| "cb_reg (Completion i p) state ls = (if res_progress state = Finite 1 then ls[i := None] else ls)"

fun cb_events :: "callback \<Rightarrow> IAnimationIteratorFuncResult \<Rightarrow> 'i event list" where
  "cb_events (Listener tag body) state = []"
| "cb_events (Completion i p) state = (if res_progress state = Finite 1 then [Resolved p state] else [])"

definition reg_visit :: "nat \<Rightarrow> IAnimationIteratorFuncResult \<Rightarrow> callback option list \<Rightarrow> callback option list" where
  "reg_visit k state ls =
     (if k < length ls then (case ls ! k of None \<Rightarrow> ls | Some cb \<Rightarrow> cb_reg cb state ls) else ls)"

definition visit_events :: "nat \<Rightarrow> IAnimationIteratorFuncResult \<Rightarrow> callback option list \<Rightarrow> 'i event list" where
  "visit_events k state ls =
     (if k < length ls
      then (case ls ! k of None \<Rightarrow> [] | Some cb \<Rightarrow> Notified k cb state # cb_events cb state)
      else [])"

fun pass_reg :: "nat \<Rightarrow> nat \<Rightarrow> IAnimationIteratorFuncResult \<Rightarrow> callback option list \<Rightarrow> callback option list" where
  "pass_reg k 0 state ls = ls"
| "pass_reg k (Suc n) state ls = pass_reg (Suc k) n state (reg_visit k state ls)"

fun pass_events :: "nat \<Rightarrow> nat \<Rightarrow> IAnimationIteratorFuncResult \<Rightarrow> callback option list \<Rightarrow> 'i event list" where
  "pass_events k 0 state ls = []"
| "pass_events k (Suc n) state ls = visit_events k state ls @ pass_events (Suc k) n state (reg_visit k state ls)"

definition visit_invoked :: "nat \<Rightarrow> callback option list \<Rightarrow> (nat \<times> callback) list" where
  "visit_invoked k ls =
     (if k < length ls then (case ls ! k of None \<Rightarrow> [] | Some cb \<Rightarrow> [(k, cb)]) else [])"

fun pass_invoked :: "nat \<Rightarrow> nat \<Rightarrow> IAnimationIteratorFuncResult \<Rightarrow> callback option list \<Rightarrow> (nat \<times> callback) list" where
  "pass_invoked k 0 state ls = []"
| "pass_invoked k (Suc n) state ls = visit_invoked k ls @ pass_invoked (Suc k) n state (reg_visit k state ls)"

fun cb_resolved :: "callback \<Rightarrow> IAnimationIteratorFuncResult \<Rightarrow> (nat \<times> IAnimationIteratorFuncResult) list" where
  "cb_resolved (Listener tag body) state = []"
| "cb_resolved (Completion i p) state = (if res_progress state = Finite 1 then [(p, state)] else [])"

definition visit_resolved :: "nat \<Rightarrow> IAnimationIteratorFuncResult \<Rightarrow> callback option list
    \<Rightarrow> (nat \<times> IAnimationIteratorFuncResult) list" where
  "visit_resolved k state ls =
     (if k < length ls then (case ls ! k of None \<Rightarrow> [] | Some cb \<Rightarrow> cb_resolved cb state) else [])"

fun pass_resolved :: "nat \<Rightarrow> nat \<Rightarrow> IAnimationIteratorFuncResult \<Rightarrow> callback option list
    \<Rightarrow> (nat \<times> IAnimationIteratorFuncResult) list" where
  "pass_resolved k 0 state ls = []"
| "pass_resolved k (Suc n) state ls
     = visit_resolved k state ls @ pass_resolved (Suc k) n state (reg_visit k state ls)"

text \<open>
  Registries in which no listener meddles with slot \<open>j\<close> and promise \<open>p\<close>, and registries
  in which slot \<open>j\<close> holds the completion listener of promise \<open>p\<close> and no other listener
  meddles. The states of the loop that \<open>start\<close> set going in \<open>w1\<close>: after \<open>m\<close> accepted ticks
  and not yet complete, and complete after \<open>n\<close> accepted ticks.
\<close>

definition safe_reg :: "nat \<Rightarrow> nat \<Rightarrow> callback option list \<Rightarrow> bool" where
  "safe_reg j p ls = (\<forall>m < length ls. \<forall>cb. ls ! m = Some cb \<longrightarrow> \<not> meddles j p cb)"

definition armed :: "nat \<Rightarrow> nat \<Rightarrow> callback option list \<Rightarrow> bool" where
  "armed j p ls =
     (j < length ls \<and> ls ! j = Some (Completion j p)
      \<and> (\<forall>m < length ls. \<forall>cb. m \<noteq> j \<and> ls ! m = Some cb \<longrightarrow> \<not> meddles j p cb))"

definition running :: "nat \<Rightarrow> nat \<Rightarrow> 'i \<Rightarrow> 'i world \<Rightarrow> nat \<Rightarrow> 'i world \<Rightarrow> bool" where
  "running j p i0 w1 m w =
     (frames w = [i0] \<and> armed j p (listeners (iter w))
      \<and> interval (iter w) = interval (iter w1) \<and> func (iter w) = func (iter w1)
      \<and> nearest w = nearest w1 \<and> promises w = promises w1
      \<and> time (iter w) = elapsed w1 m
      \<and> fulfilments p (trace w) = fulfilments p (trace w1)
      \<and> ticks (trace w) = ticks (trace w1) + m)"

text \<open>
  The states of an animation of \<open>i\<close> with the configuration and arithmetic of \<open>w0\<close>, at an
  elapsed time of \<open>t0\<close> or more: the elapsed time is a double and the stored progress is
  the clamped progress of the update function at the elapsed time.
\<close>

definition steady :: "'i \<Rightarrow> real \<Rightarrow> 'i world \<Rightarrow> 'i world \<Rightarrow> bool" where
  "steady i t0 w0 w =
     (interval (iter w) = interval (iter w0) \<and> func (iter w) = func (iter w0)
      \<and> nearest w = nearest w0 \<and> t0 \<le> time (iter w) \<and> is_double w0 (time (iter w))
      \<and> set (frames w) \<subseteq> {i}
      \<and> progress (iter w) = res_progress (clamp (func (iter w0) i (time (iter w)))))"

text \<open>
  The states in which promise \<open>p\<close> has been created, no listener holds its \<open>resolve\<close>, and
  the values passed to its \<open>resolve\<close> so far are \<open>vs\<close>.
\<close>

definition settled :: "nat \<Rightarrow> IAnimationIteratorFuncResult list \<Rightarrow> 'i world \<Rightarrow> bool" where
  "settled p vs w = (quiet p (listeners (iter w)) \<and> p < promises w \<and> fulfilments p (trace w) = vs)"

definition finished :: "nat \<Rightarrow> nat \<Rightarrow> 'i \<Rightarrow> 'i world \<Rightarrow> nat \<Rightarrow> 'i world \<Rightarrow> bool" where
  "finished j p i0 w1 n w =
     (frames w = [] \<and> safe_reg j p (listeners (iter w))
      \<and> promises w = promises w1
      \<and> fulfilments p (trace w) = fulfilments p (trace w1) @ [final_state i0 w1 n]
      \<and> ticks (trace w) = ticks (trace w1) + n
      \<and> Notified j (Completion j p) (final_state i0 w1 n) \<in> set (trace w))"


section \<open>Example states\<close>

text \<open>
  A page on which an iterator has just been constructed and nothing else happened, with
  three configurations (the default update function, whose progress is the elapsed time,
  and a step of a half, of two and of minus one), with the progress of the demonstration
  page (the square of the elapsed time), with an update function that sets a style and a
  step of three quarters, and with an update function whose progress is \<open>NaN\<close>; the same
  with one observer subscribed; with three observers subscribed and the
  second unsubscribed. The arithmetic of all of them is exact: their sums are sums of
  doubles that need no rounding.
\<close>

definition idle_world :: "'i IAnimationIteratorArgs \<Rightarrow> 'i world" where
  "idle_world a = \<lparr>iter = new_AnimationIterator a, frames = [], promises = 0, trace = [],
                  nearest = (\<lambda>x. x)\<rparr>"

definition half_step_args :: "unit IAnimationIteratorArgs" where
  "half_step_args = \<lparr>arg_rate = Some 50, arg_interval = Some (1 / 2), arg_time = None,
                      arg_func = None, arg_function = None\<rparr>"

definition big_step_args :: "unit IAnimationIteratorArgs" where
  "big_step_args = \<lparr>arg_rate = Some 50, arg_interval = Some 2, arg_time = None,
                      arg_func = None, arg_function = None\<rparr>"

definition square_args :: "unit IAnimationIteratorArgs" where
  \<comment> \<open>the progress of the update function of examples/demo.ts, \<open>time ** 2\<close>\<close>
  "square_args = \<lparr>arg_rate = Some 60, arg_interval = Some (1 / 2), arg_time = None,
                   arg_func = Some (\<lambda>initialState t. \<lparr>styles = [], res_progress = Finite (t * t)\<rparr>),
                   arg_function = None\<rparr>"

definition styled_args :: "unit IAnimationIteratorArgs" where
  "styled_args = \<lparr>arg_rate = Some 50, arg_interval = Some (3 / 4), arg_time = None,
                   arg_func = Some (\<lambda>initialState t. \<lparr>styles = [(''left'', ''40px'')],
                                                         res_progress = Finite t\<rparr>),
                   arg_function = None\<rparr>"

definition nan_args :: "unit IAnimationIteratorArgs" where
  "nan_args = \<lparr>arg_rate = Some 50, arg_interval = Some (1 / 2), arg_time = None,
                arg_func = Some (\<lambda>initialState t. \<lparr>styles = [], res_progress = NotANumber\<rparr>),
                arg_function = None\<rparr>"

definition backward_args :: "unit IAnimationIteratorArgs" where
  "backward_args = \<lparr>arg_rate = Some 50, arg_interval = Some (- 1), arg_time = None,
                     arg_func = None, arg_function = None\<rparr>"

definition watched_world :: "'i IAnimationIteratorArgs \<Rightarrow> 'i world" where
  "watched_world a = (idle_world a)\<lparr>iter := snd (subscribe (Listener 0 []) (new_AnimationIterator a))\<rparr>"

definition three_observers :: "callback list" where
  "three_observers = [Listener 0 [], Listener 1 [], Listener 2 []]"

definition one_left_world :: "unit world" where
  "one_left_world =
     (idle_world half_step_args)
       \<lparr>iter := unsubscribe 1 (subscribe_all three_observers (new_AnimationIterator half_step_args))\<rparr>"

text \<open>
  Three registries: one whose listeners unsubscribe themselves and others; one of an
  animation that has been started, with an empty slot below a listener that subscribes
  three more; one with an empty slot above a listener that subscribes another.
\<close>

definition removing_world :: "unit world" where
  "removing_world =
     (idle_world half_step_args)
       \<lparr>iter := subscribe_all
                  [Listener 0 [Unsubscribe 0, Unsubscribe 2], Listener 1 [], Listener 2 [],
                   Listener 3 [Unsubscribe 1]]
                  (new_AnimationIterator half_step_args)\<rparr>"




section \<open>Properties\<close>

subsection \<open>The colour parser\<close>

text \<open>
  Claim C9. \<open>extractColorAsRgb\<close> tries the four-component expression, then the
  three-component one, then the hexadecimal one, and the claim gives four examples.
  Three of them hold. The fourth does not: the four-component expression of line 14
  begins with the literal \<open>rgb\<close>, optional white space and the parenthesis, so it has no
  place for the \<open>a\<close> of \<open>rgba(\<close>; neither has the three-component one, and
  \<open>rgba(10,20,30,5)\<close> ends in the \<open>throw\<close> of line 56. What the first expression
  accepts is \<open>rgb(10,20,30,5)\<close>.
\<close>

theorem extractColorAsRgb_examples:
  "extractColorAsRgb ''rgba(10,20,30,5)'' = Inl FormatNotRecognized
   \<and> extractColorAsRgb ''rgb(10,20,30,5)''
       = Inr \<lparr>rgb_r = Num 10, rgb_g = Num 20, rgb_b = Num 30, rgb_a = Some (Num 5)\<rparr>
   \<and> extractColorAsRgb ''rgb(10, 20, 30)''
       = Inr \<lparr>rgb_r = Num 10, rgb_g = Num 20, rgb_b = Num 30, rgb_a = None\<rparr>
   \<and> extractColorAsRgb ''#ff0000''
       = Inr \<lparr>rgb_r = Num 255, rgb_g = Num 0, rgb_b = Num 0, rgb_a = None\<rparr>
   \<and> extractColorAsRgb ''notacolor'' = Inl FormatNotRecognized"
  by code_simp

subsection \<open>The notification pass as a function of the registry\<close>

lemma emitted_app: "trace w' = trace w @ es \<Longrightarrow> emitted w w' = es"
  by (simp add: emitted_def)

lemma exec_eq: "exec a this = this\<lparr>listeners := reg_exec a (listeners this)\<rparr>"
  by (cases a) (auto simp: unsubscribe_def subscribe_def split: option.splits)

lemma fold_exec_eq: "fold exec body this = this\<lparr>listeners := fold reg_exec body (listeners this)\<rparr>"
  by (induction body arbitrary: this) (simp_all add: exec_eq)

lemma invoke_eq:
  "invoke cb st w = w\<lparr>iter := (iter w)\<lparr>listeners := cb_reg cb st (listeners (iter w))\<rparr>,
                      trace := trace w @ cb_events cb st\<rparr>"
  by (cases cb) (simp_all add: fold_exec_eq emit_def unsubscribe_def)

lemma visit_eq:
  "visit k st w = w\<lparr>iter := (iter w)\<lparr>listeners := reg_visit k st (listeners (iter w))\<rparr>,
                     trace := trace w @ visit_events k st (listeners (iter w))\<rparr>"
  by (simp add: visit_def reg_visit_def visit_events_def invoke_eq emit_def split: option.splits)

lemma forEach_from_eq:
  "forEach_from k n st w
     = w\<lparr>iter := (iter w)\<lparr>listeners := pass_reg k n st (listeners (iter w))\<rparr>,
          trace := trace w @ pass_events k n st (listeners (iter w))\<rparr>"
proof (induction n arbitrary: k w)
  case 0 show ?case by simp
next
  case (Suc n)
  show ?case by (simp add: Suc.IH) (simp add: visit_eq)
qed


lemma add_double_zero: "add_double w 0 b = b"
  by (simp add: add_double_def)

lemma next_tick_accepted:
  assumes "due now (iter w)"
  shows "next_tick now now' i w =
     (let t = add_double w (time (iter w)) (interval (iter w));
          st = clamp (func (iter w) i t);
          ls = listeners (iter w);
          w2 = w\<lparr>iter := (iter w)\<lparr>lastTick := now', time := t, progress := res_progress st,
                                   listeners := pass_reg 0 (length ls) st ls\<rparr>,
                 trace := trace w @ Update i t # pass_events 0 (length ls) st ls\<rparr>
      in if num_ge (res_progress st) (Finite 1) then w2 else w2\<lparr>frames := frames w @ [i]\<rparr>)"
  using assms
  by (simp add: next_tick_def Let_def forEach_def forEach_from_eq emit_def requestAnimationFrame_def
      add_double_def)

lemma next_tick_rejected:
  "\<not> due now (iter w) \<Longrightarrow> next_tick now now' i w = w\<lparr>frames := frames w @ [i]\<rparr>"
  by (simp add: next_tick_def requestAnimationFrame_def)



lemma cb_events_state: "e \<in> set (cb_events cb st) \<Longrightarrow> \<exists>p. e = Resolved p st"
  by (cases cb) (auto split: if_splits)

lemma visit_events_state:
  assumes "e \<in> set (visit_events k st ls)" 
  shows "(\<exists>cb. e = Notified k cb st) \<or> (\<exists>p. e = Resolved p st)"
proof (cases "k < length ls")
  case False with assms show ?thesis by (simp add: visit_events_def)
next
  case True
  show ?thesis
  proof (cases "ls ! k")
    case None with True assms show ?thesis by (simp add: visit_events_def)
  next
    case (Some cb)
    with True assms have "e = Notified k cb st \<or> e \<in> set (cb_events cb st)"
      by (simp add: visit_events_def)
    then show ?thesis using cb_events_state by blast
  qed
qed

lemma pass_events_state:
  "e \<in> set (pass_events k n st ls) \<Longrightarrow> (\<exists>j cb. e = Notified j cb st) \<or> (\<exists>p. e = Resolved p st)"
proof (induction n arbitrary: k ls)
  case 0 then show ?case by simp
next
  case (Suc n)
  from Suc.prems consider "e \<in> set (visit_events k st ls)"
    | "e \<in> set (pass_events (Suc k) n st (reg_visit k st ls))" by auto
  then show ?case
  proof cases
    case 1
    from visit_events_state[OF this] show ?thesis by blast
  next
    case 2 then show ?thesis by (rule Suc.IH)
  qed
qed


lemma observer_reg: "observer cb \<Longrightarrow> cb_reg cb st ls = ls"
  by (cases cb) (simp_all add: observer_def)

lemma observer_events: "observer cb \<Longrightarrow> cb_events cb st = []"
  by (cases cb) (simp_all add: observer_def)

lemma pass_observers_upto:
  assumes "\<forall>cb. Some cb \<in> set ls \<longrightarrow> observer cb" and "m \<le> length ls"
  shows "k + n = m \<Longrightarrow> pass_reg k n st ls = ls
         \<and> pass_events k n st ls
             = concat (map (\<lambda>j. case ls ! j of None \<Rightarrow> [] | Some cb \<Rightarrow> [Notified j cb st]) [k..<m])"
proof (induction n arbitrary: k)
  case 0 then show ?case by simp
next
  case (Suc n)
  then have k: "k < length ls" "k < m" using assms(2) by simp_all
  have r: "reg_visit k st ls = ls"
    using assms(1) k by (auto simp: reg_visit_def observer_reg split: option.splits dest!: nth_mem)
  have e: "visit_events k st ls = (case ls ! k of None \<Rightarrow> [] | Some cb \<Rightarrow> [Notified k cb st])"
    using assms(1) k by (auto simp: visit_events_def observer_events split: option.splits dest!: nth_mem)
  have u: "[k..<m] = k # [Suc k..<m]" using k by (simp add: upt_conv_Cons)
  show ?case using Suc.IH[of "Suc k"] Suc.prems by (simp add: r e u)
qed

lemma pass_reg_observers:
  assumes "\<forall>cb. Some cb \<in> set ls \<longrightarrow> observer cb"
  shows "pass_reg 0 (length ls) st ls = ls"
  by (rule conjunct1[OF pass_observers_upto[OF assms order_refl]]) simp

lemma pass_events_observers:
  assumes "\<forall>cb. Some cb \<in> set ls \<longrightarrow> observer cb"
  shows "pass_events 0 (length ls) st ls
             = concat (map (\<lambda>j. case ls ! j of None \<Rightarrow> [] | Some cb \<Rightarrow> [Notified j cb st]) [0..<length ls])"
  by (rule conjunct2[OF pass_observers_upto[OF assms order_refl]]) simp

lemma invoked_concat_Notified:
  "invoked (concat (map (\<lambda>j. case ls ! j of None \<Rightarrow> [] | Some cb \<Rightarrow> [Notified j cb st]) js))
     = concat (map (\<lambda>j. case ls ! j of None \<Rightarrow> [] | Some cb \<Rightarrow> [(j, cb)]) js)"
  by (induction js) (auto split: option.splits)

lemma empty_slot_None_iff: "empty_slot ls = None \<longleftrightarrow> None \<notin> set ls"
  by (induction ls rule: empty_slot.induct) auto

lemma empty_slot_Some:
  "empty_slot ls = Some i \<Longrightarrow> i < length ls \<and> ls ! i = None \<and> (\<forall>j<i. ls ! j \<noteq> None)"
proof (induction ls arbitrary: i rule: empty_slot.induct)
  case 1 then show ?case by simp
next
  case (2 ls) then show ?case by simp
next
  case (3 cb ls)
  then obtain i' where i': "empty_slot ls = Some i'" "i = Suc i'" by auto
  from 3(1)[OF i'(1)] i'(2) show ?case by (auto simp: less_Suc_eq_0_disj)
qed

lemma subscribe_all_full:
  "listeners this = map Some xs \<Longrightarrow> listeners (subscribe_all cbs this) = map Some (xs @ cbs)"
proof (induction cbs arbitrary: this xs)
  case Nil then show ?case by (simp add: subscribe_all_def)
next
  case (Cons cb cbs)
  have "empty_slot (map Some xs) = None" by (simp add: empty_slot_None_iff)
  then have "listeners (snd (subscribe cb this)) = map Some (xs @ [cb])"
    using Cons.prems by (simp add: subscribe_def)
  from Cons.IH[OF this] show ?case by (simp add: subscribe_all_def)
qed



lemma free_slot_props:
  "free_slot ls \<le> length ls"
  "free_slot ls < length ls \<Longrightarrow> ls ! free_slot ls = None"
  "j < free_slot ls \<Longrightarrow> ls ! j \<noteq> None"
proof -
  show "free_slot ls \<le> length ls"
    by (cases "empty_slot ls") (auto simp: free_slot_def dest: empty_slot_Some)
  show "free_slot ls < length ls \<Longrightarrow> ls ! free_slot ls = None"
    by (cases "empty_slot ls") (auto simp: free_slot_def dest: empty_slot_Some)
  show "j < free_slot ls \<Longrightarrow> ls ! j \<noteq> None"
  proof (cases "empty_slot ls")
    case None
    assume "j < free_slot ls"
    with None have "j < length ls" by (simp add: free_slot_def)
    moreover from None have "None \<notin> set ls" by (simp add: empty_slot_None_iff)
    ultimately show ?thesis by (metis nth_mem)
  next
    case (Some i)
    assume "j < free_slot ls"
    with Some empty_slot_Some[OF Some] show ?thesis by (simp add: free_slot_def)
  qed
qed

lemma subscribe_eq:
  "subscribe cb this
     = (free_slot (listeners this),
        this\<lparr>listeners := (if free_slot (listeners this) < length (listeners this)
                             then (listeners this)[free_slot (listeners this) := Some cb]
                             else listeners this @ [Some cb])\<rparr>)"
  by (cases "empty_slot (listeners this)")
     (auto simp: subscribe_def free_slot_def dest: empty_slot_Some)

lemma occupied_without:
  assumes "k < length cbs"
  shows "occupied ((map Some cbs)[k := None])
           = map (\<lambda>j. (j, cbs ! j)) (filter (\<lambda>j. j \<noteq> k) [0..<length cbs])"
proof -
  have "concat (map (\<lambda>j. case (map Some cbs)[k := None] ! j of None \<Rightarrow> [] | Some cb \<Rightarrow> [(j, cb)]) js)
          = map (\<lambda>j. (j, cbs ! j)) (filter (\<lambda>j. j \<noteq> k) js)"
    if "set js \<subseteq> {..<length cbs}" for js
    using that by (induction js) (auto simp: nth_list_update)
  moreover have "set [0..<length cbs] \<subseteq> {..<length cbs}" by auto
  ultimately show ?thesis unfolding occupied_def by (simp only: length_list_update length_map)
qed

lemma length_filter_neq_upt: "k < n \<Longrightarrow> length (filter (\<lambda>j. j \<noteq> k) [0..<n]) = n - 1"
proof (induction n)
  case 0 then show ?case by simp
next
  case (Suc n)
  show ?case
  proof (cases "k = n")
    case True
    have "filter (\<lambda>j. j \<noteq> n) [0..<n] = [0..<n]" by (rule filter_True) simp
    with True show ?thesis by simp
  next
    case False
    with Suc.prems have "k < n" by simp
    from Suc.IH[OF this] False \<open>k < n\<close> show ?thesis by simp
  qed
qed

subsection \<open>Rejected ticks\<close>



subsection \<open>Clamped progress\<close>

text \<open>
  The example states of this part, evaluated.
\<close>

lemma watched_big_step_world:
  "watched_world big_step_args
     = \<lparr>iter = \<lparr>args = big_step_args, interval = 2, rate = 50, progress = Finite 0, time = 0,
                lastTick = 0, func = DEFAULT_FUNC, listeners = [Some (Listener 0 [])]\<rparr>,
        frames = [], promises = 0, trace = [], nearest = (\<lambda>x. x)\<rparr>"
  by (simp add: watched_world_def idle_world_def new_AnimationIterator_def reset_def
      big_step_args_def subscribe_def conditionalDefault_def or_else_def
      DEFAULT_PROGRESS_def DEFAULT_TIME_def DEFAULT_LAST_TICK_def)

lemma watched_nan_world:
  "watched_world nan_args
     = \<lparr>iter = \<lparr>args = nan_args, interval = 1 / 2, rate = 50, progress = Finite 0, time = 0,
                lastTick = 0, func = (\<lambda>initialState t. \<lparr>styles = [], res_progress = NotANumber\<rparr>),
                listeners = [Some (Listener 0 [])]\<rparr>,
        frames = [], promises = 0, trace = [], nearest = (\<lambda>x. x)\<rparr>"
  by (simp add: watched_world_def idle_world_def new_AnimationIterator_def reset_def
      nan_args_def subscribe_def conditionalDefault_def or_else_def
      DEFAULT_PROGRESS_def DEFAULT_TIME_def DEFAULT_LAST_TICK_def)

text \<open>
  Claim C3, as stated: the state passed to a listener has progress \<open><= 1.0\<close>. It fails
  for an update function that returns a progress of \<open>NaN\<close>: the test \<open>NaN >= 1.0\<close> of line
  189 is false, the state is passed to the listener as it is, and \<open>NaN <= 1.0\<close> is false
  too.
\<close>

theorem notified_progress_counterexample:
  "due 1000 (iter (watched_world nan_args))
   \<and> Notified 0 (Listener 0 []) \<lparr>styles = [], res_progress = NotANumber\<rparr>
       \<in> set (emitted (watched_world nan_args) (next_tick 1000 1001 () (watched_world nan_args)))
   \<and> \<not> num_le (res_progress \<lparr>styles = [], res_progress = NotANumber\<rparr>) (Finite 1)"
  unfolding watched_nan_world
  by (simp add: next_tick_def due_def clamp_def forEach_def visit_def emit_def emitted_def
      add_double_def Let_def requestAnimationFrame_def)

text \<open>
  Claim C3, amended. Every state that a tick passes to a listener is the result of the
  update function after the clamp of lines 189-191. Its progress is never greater than
  1; it is exactly 1 when the update function returned a progress of 1 or more; it is at
  most 1 when the update function returned a progress that is a number; and it is \<open>NaN\<close>,
  unclamped, when the update function returned \<open>NaN\<close>. (A rejected tick notifies nobody,
  so the hypothesis holds only for accepted ticks.)
\<close>

theorem notified_progress_clamped:
  fixes w :: "'i world"
  assumes "Notified k cb st \<in> set (emitted w (next_tick now now' i w))"
  shows "st = clamp (func (iter w) i (add_double w (time (iter w)) (interval (iter w))))
         \<and> \<not> num_gt (res_progress st) (Finite 1)
         \<and> (num_ge (res_progress (func (iter w) i (add_double w (time (iter w)) (interval (iter w)))))
                   (Finite 1)
              \<longrightarrow> res_progress st = Finite 1)
         \<and> (res_progress (func (iter w) i (add_double w (time (iter w)) (interval (iter w))))
                   \<noteq> NotANumber
              \<longrightarrow> num_le (res_progress st) (Finite 1))
         \<and> (res_progress (func (iter w) i (add_double w (time (iter w)) (interval (iter w))))
                   = NotANumber
              \<longrightarrow> res_progress st = NotANumber)"
proof -
  let ?t = "add_double w (time (iter w)) (interval (iter w))"
  let ?r = "func (iter w) i ?t"
  let ?st = "clamp ?r"
  let ?ls = "listeners (iter w)"
  let ?es = "pass_events 0 (length ?ls) ?st ?ls :: 'i event list"
  have d: "due now (iter w)"
  proof (rule ccontr)
    assume "\<not> due now (iter w)"
    then have "emitted w (next_tick now now' i w) = []"
      by (simp add: next_tick_rejected emitted_def)
    with assms show False by simp
  qed
  have "emitted w (next_tick now now' i w) = Update i ?t # ?es"
    by (rule emitted_app) (simp add: next_tick_accepted[OF d] Let_def)
  with assms have "Notified k cb st \<in> set ?es" by simp
  from pass_events_state[OF this] have st: "st = ?st" by auto
  show ?thesis
  proof (cases "res_progress ?r")
    case NotANumber
    then show ?thesis by (simp add: st clamp_def)
  next
    case (Finite x)
    then show ?thesis by (simp add: st clamp_def)
  qed
qed

theorem notified_progress_clamped_witness:
  "Notified 0 (Listener 0 []) \<lparr>styles = [], res_progress = Finite 1\<rparr>
     \<in> set (emitted (watched_world big_step_args) (next_tick 1000 1001 () (watched_world big_step_args)))
   \<and> \<lparr>styles = [], res_progress = Finite 1\<rparr>
       = clamp (func (iter (watched_world big_step_args)) ()
                 (add_double (watched_world big_step_args) (time (iter (watched_world big_step_args)))
                    (interval (iter (watched_world big_step_args)))))
   \<and> res_progress (func (iter (watched_world big_step_args)) ()
         (add_double (watched_world big_step_args) (time (iter (watched_world big_step_args)))
            (interval (iter (watched_world big_step_args))))) = Finite 2
   \<and> \<not> num_gt (Finite 1) (Finite 1) \<and> num_le (Finite 1) (Finite 1)"
proof -
  have h: "Notified 0 (Listener 0 []) \<lparr>styles = [], res_progress = Finite 1\<rparr>
     \<in> set (emitted (watched_world big_step_args) (next_tick 1000 1001 () (watched_world big_step_args)))"
    unfolding watched_big_step_world
    by (simp add: next_tick_def due_def clamp_def DEFAULT_FUNC_def forEach_def visit_def emit_def
        emitted_def add_double_def Let_def)
  show ?thesis
    using h notified_progress_clamped[OF h]
    by (simp add: watched_big_step_world DEFAULT_FUNC_def add_double_def)
qed

subsection \<open>Subscribing and unsubscribing\<close>

lemma subscribe_all_fresh:
  assumes "listeners this0 = []"
  shows "listeners (subscribe_all cbs this0) = map Some cbs"
  using subscribe_all_full[of this0 "[]" cbs] assms by simp

text \<open>
  Claim C4. \<open>subscribe\<close> stores the callback in the empty slot of lowest index and
  appends a slot only when no slot is empty; the closure it returns clears exactly the
  slot it used, and calling it again changes nothing. After \<open>N\<close> callbacks have been
  subscribed to an empty registry, the \<open>k\<close>-th has slot \<open>k\<close>; when it is unsubscribed,
  \<open>N - 1\<close> listeners remain in their slots, and the next accepted tick invokes exactly
  them, in slot order. The last part is stated for observers: what happens when a
  callback changes the registry during the pass is the subject of claims C5 and C6.
\<close>

theorem subscribe_unsubscribe_slots:
  fixes w :: "'i world" and this this0 :: "'i AnimationIterator"
  shows "subscribe cb this
           = (free_slot (listeners this),
              this\<lparr>listeners := (if free_slot (listeners this) < length (listeners this)
                                   then (listeners this)[free_slot (listeners this) := Some cb]
                                   else listeners this @ [Some cb])\<rparr>)
         \<and> free_slot (listeners this) \<le> length (listeners this)
         \<and> (free_slot (listeners this) < length (listeners this)
               \<longrightarrow> listeners this ! free_slot (listeners this) = None)
         \<and> (\<forall>j < free_slot (listeners this). listeners this ! j \<noteq> None)
         \<and> unsubscribe i this = this\<lparr>listeners := (listeners this)[i := None]\<rparr>
         \<and> unsubscribe i (unsubscribe i this) = unsubscribe i this
         \<and> (listeners this0 = [] \<and> k < length cbs \<and> (\<forall>c \<in> set cbs. observer c)
              \<and> iter w = unsubscribe k (subscribe_all cbs this0) \<and> due now (iter w)
             \<longrightarrow> fst (subscribe (cbs ! k) (subscribe_all (take k cbs) this0)) = k
               \<and> occupied (listeners (iter w))
                   = map (\<lambda>j. (j, cbs ! j)) (filter (\<lambda>j. j \<noteq> k) [0..<length cbs])
               \<and> length (occupied (listeners (iter w))) = length cbs - 1
               \<and> invoked (emitted w (next_tick now now' initialState w))
                   = occupied (listeners (iter w)))"
proof -
  have p3: "fst (subscribe (cbs ! k) (subscribe_all (take k cbs) this0)) = k
               \<and> occupied (listeners (iter w))
                   = map (\<lambda>j. (j, cbs ! j)) (filter (\<lambda>j. j \<noteq> k) [0..<length cbs])
               \<and> length (occupied (listeners (iter w))) = length cbs - 1
               \<and> invoked (emitted w (next_tick now now' initialState w))
                   = occupied (listeners (iter w))"
    if h: "listeners this0 = []" "k < length cbs" "\<forall>c \<in> set cbs. observer c"
          "iter w = unsubscribe k (subscribe_all cbs this0)" "due now (iter w)"
  proof -
    let ?ls = "listeners (iter w)"
    let ?st = "clamp (func (iter w) initialState (add_double w (time (iter w)) (interval (iter w))))"
    have ls: "?ls = (map Some cbs)[k := None]"
      using h(4) subscribe_all_fresh[OF h(1), of cbs] by (simp add: unsubscribe_def)
    have "listeners (subscribe_all (take k cbs) this0) = map Some (take k cbs)"
      by (rule subscribe_all_fresh[OF h(1)])
    moreover have "free_slot (map Some (take k cbs)) = length (take k cbs)"
      by (simp add: free_slot_def empty_slot_None_iff[THEN iffD2])
    ultimately have a: "fst (subscribe (cbs ! k) (subscribe_all (take k cbs) this0)) = k"
      using h(2) by (simp add: subscribe_eq)
    have b: "occupied ?ls = map (\<lambda>j. (j, cbs ! j)) (filter (\<lambda>j. j \<noteq> k) [0..<length cbs])"
      unfolding ls by (rule occupied_without[OF h(2)])
    have c: "length (occupied ?ls) = length cbs - 1"
      by (simp add: b length_filter_neq_upt[OF h(2)])
    have obs: "\<forall>cb. Some cb \<in> set ?ls \<longrightarrow> observer cb"
    proof (intro allI impI)
      fix cb assume "Some cb \<in> set ?ls"
      then have "Some cb \<in> insert None (set (map Some cbs))"
        unfolding ls using set_update_subset_insert by fastforce
      then show "observer cb" using h(3) by auto
    qed
    have "emitted w (next_tick now now' initialState w)
            = Update initialState (add_double w (time (iter w)) (interval (iter w)))
              # concat (map (\<lambda>j. case ?ls ! j of None \<Rightarrow> [] | Some cb \<Rightarrow> [Notified j cb ?st]) [0..<length ?ls])"
      by (rule emitted_app)
         (simp add: next_tick_accepted[OF h(5)] Let_def pass_events_observers[OF obs])
    then have d: "invoked (emitted w (next_tick now now' initialState w)) = occupied ?ls"
      by (simp add: invoked_concat_Notified occupied_def)
    from a b c d show ?thesis by blast
  qed
  have p1: "\<forall>j < free_slot (listeners this). listeners this ! j \<noteq> None"
    using free_slot_props(3) by blast
  have p2: "free_slot (listeners this) < length (listeners this)
               \<longrightarrow> listeners this ! free_slot (listeners this) = None"
    using free_slot_props(2) by blast
  have u1: "unsubscribe i this = this\<lparr>listeners := (listeners this)[i := None]\<rparr>"
    by (simp add: unsubscribe_def)
  have u2: "unsubscribe i (unsubscribe i this) = unsubscribe i this"
    by (simp add: unsubscribe_def)
  show ?thesis
    by (intro conjI impI; (elim conjE)?)
       (rule subscribe_eq free_slot_props(1,2) p1 u1 u2
          p3[THEN conjunct1] p3[THEN conjunct2, THEN conjunct1]
          p3[THEN conjunct2, THEN conjunct2, THEN conjunct1]
          p3[THEN conjunct2, THEN conjunct2, THEN conjunct2]; assumption)+
qed



lemma half_step_iterator:
  "new_AnimationIterator half_step_args
     = \<lparr>args = half_step_args, interval = 1 / 2, rate = 50, progress = Finite 0, time = 0,
        lastTick = 0, func = DEFAULT_FUNC, listeners = []\<rparr>"
  by (simp add: new_AnimationIterator_def reset_def half_step_args_def conditionalDefault_def
      or_else_def DEFAULT_PROGRESS_def DEFAULT_TIME_def DEFAULT_LAST_TICK_def)

lemma one_left_world_eq:
  "one_left_world
     = \<lparr>iter = \<lparr>args = half_step_args, interval = 1 / 2, rate = 50, progress = Finite 0, time = 0,
                lastTick = 0, func = DEFAULT_FUNC,
                listeners = [Some (Listener 0 []), None, Some (Listener 2 [])]\<rparr>,
        frames = [], promises = 0, trace = [], nearest = (\<lambda>x. x)\<rparr>"
  by (simp add: one_left_world_def idle_world_def half_step_iterator subscribe_all_def
      three_observers_def subscribe_def unsubscribe_def)

theorem subscribe_unsubscribe_slots_witness:
  "listeners (new_AnimationIterator half_step_args) = []
   \<and> (1::nat) < length three_observers
   \<and> list_all observer three_observers
   \<and> iter one_left_world
       = unsubscribe 1 (subscribe_all three_observers (new_AnimationIterator half_step_args))
   \<and> due 1000 (iter one_left_world)
   \<and> fst (subscribe (three_observers ! 1)
             (subscribe_all (take 1 three_observers) (new_AnimationIterator half_step_args))) = 1
   \<and> occupied (listeners (iter one_left_world)) = [(0, Listener 0 []), (2, Listener 2 [])]
   \<and> length (occupied (listeners (iter one_left_world))) = 2
   \<and> invoked (emitted one_left_world (next_tick 1000 1001 () one_left_world))
       = [(0, Listener 0 []), (2, Listener 2 [])]"
proof -
  have h1: "listeners (new_AnimationIterator half_step_args) = []"
    by (simp add: half_step_iterator)
  have h2: "(1::nat) < length three_observers" by (simp add: three_observers_def)
  have h3: "\<forall>c \<in> set three_observers. observer c"
    by (simp add: three_observers_def observer_def)
  have h4: "iter one_left_world
       = unsubscribe 1 (subscribe_all three_observers (new_AnimationIterator half_step_args))"
    by (simp add: one_left_world_def)
  have h5: "due 1000 (iter one_left_world)"
    by (simp add: one_left_world_eq due_def)
  have o: "occupied (listeners (iter one_left_world)) = [(0, Listener 0 []), (2, Listener 2 [])]"
    by (simp add: one_left_world_eq occupied_def)
  from subscribe_unsubscribe_slots[where ?this0.0 = "new_AnimationIterator half_step_args"
        and k = 1 and cbs = three_observers and w = one_left_world and now = 1000
        and now' = 1001 and initialState = "()"]
    h1 h2 h3 h4 h5
  have "fst (subscribe (three_observers ! 1)
             (subscribe_all (take 1 three_observers) (new_AnimationIterator half_step_args))) = 1
        \<and> invoked (emitted one_left_world (next_tick 1000 1001 () one_left_world))
            = occupied (listeners (iter one_left_world))"
    by blast
  with h1 h2 h3 h4 h5 o show ?thesis by (simp add: list_all_iff)
qed

subsection \<open>The first tick\<close>

lemma pass_events_first_occupied:
  assumes "ls ! k = Some cb" and "k < length ls"
  shows "k0 \<le> k \<Longrightarrow> k < k0 + n \<Longrightarrow> \<forall>j. k0 \<le> j \<and> j < k \<longrightarrow> ls ! j = None
           \<Longrightarrow> (Notified k cb st :: 'i event) \<in> set (pass_events k0 n st ls)"
proof (induction n arbitrary: k0)
  case 0 then show ?case by simp
next
  case (Suc n)
  show ?case
  proof (cases "k0 = k")
    case True
    with assms show ?thesis by (simp add: visit_events_def)
  next
    case False
    with Suc.prems have lt: "k0 < k" by simp
    with Suc.prems have "ls ! k0 = None" by simp
    then have r: "reg_visit k0 st ls = ls" by (simp add: reg_visit_def)
    have "(Notified k cb st :: 'i event) \<in> set (pass_events (Suc k0) n st ls)"
      using Suc.IH[of "Suc k0"] Suc.prems lt by simp
    then show ?thesis by (simp add: r)
  qed
qed

lemma reset_fields:
  "lastTick (reset this) = 0" "time (reset this) = 0" "progress (reset this) = Finite 0"
  "lastTick (new_AnimationIterator a) = 0" "time (new_AnimationIterator a) = 0"
  "listeners (reset this) = listeners this"
  by (simp_all add: reset_def new_AnimationIterator_def DEFAULT_LAST_TICK_def DEFAULT_TIME_def
      DEFAULT_PROGRESS_def)

text \<open>
  Claim C10. After the constructor and after \<open>reset\<close>, \<open>lastTick\<close> is 0. So for a positive
  rate the first call of \<open>next\<close> at a clock reading of at least \<open>1000 / rate\<close> is accepted:
  the elapsed time becomes the interval, \<open>lastTick\<close> the clock reading, the update
  function is called, the listener in the lowest occupied slot is notified with the
  clamped result, and when the listeners are observers all of them are, in slot order.
\<close>

theorem first_tick_accepted:
  fixes w :: "'i world"
  assumes "iter w = reset this \<or> iter w = new_AnimationIterator a"
      and "0 < rate (iter w)" and "1000 / rate (iter w) \<le> now"
  shows "lastTick (iter w) = 0
         \<and> due now (iter w)
         \<and> time (iter (next_tick now now' i w)) = interval (iter w)
         \<and> lastTick (iter (next_tick now now' i w)) = now'
         \<and> take 1 (emitted w (next_tick now now' i w)) = [Update i (interval (iter w))]
         \<and> (\<forall>k cb. k < length (listeners (iter w)) \<and> listeners (iter w) ! k = Some cb
                    \<and> (\<forall>j < k. listeners (iter w) ! j = None)
               \<longrightarrow> Notified k cb (clamp (func (iter w) i (interval (iter w))))
                     \<in> set (emitted w (next_tick now now' i w)))
         \<and> ((\<forall>cb. Some cb \<in> set (listeners (iter w)) \<longrightarrow> observer cb)
               \<longrightarrow> invoked (emitted w (next_tick now now' i w)) = occupied (listeners (iter w)))"
proof -
  let ?ls = "listeners (iter w)"
  let ?st = "clamp (func (iter w) i (interval (iter w)))"
  let ?es = "pass_events 0 (length ?ls) ?st ?ls :: 'i event list"
  have z: "lastTick (iter w) = 0" "time (iter w) = 0"
    using assms(1) by (auto simp: reset_fields)
  have d: "due now (iter w)"
    using assms(2,3) z by (simp add: due_def)
  have e: "emitted w (next_tick now now' i w) = Update i (interval (iter w)) # ?es"
    by (rule emitted_app) (simp add: next_tick_accepted[OF d] Let_def z add_double_zero)
  have f: "time (iter (next_tick now now' i w)) = interval (iter w)"
          "lastTick (iter (next_tick now now' i w)) = now'"
    by (simp_all add: next_tick_accepted[OF d] Let_def z add_double_zero)
  have g: "Notified k cb ?st \<in> set (emitted w (next_tick now now' i w))"
    if "k < length ?ls" "?ls ! k = Some cb" "\<forall>j < k. ?ls ! j = None" for k cb
  proof -
    have "Notified k cb ?st \<in> set ?es"
      by (rule pass_events_first_occupied[OF that(2) that(1)]) (use that in simp_all)
    then show ?thesis by (simp add: e)
  qed
  have h: "invoked (emitted w (next_tick now now' i w)) = occupied ?ls"
    if "\<forall>cb. Some cb \<in> set ?ls \<longrightarrow> observer cb"
    by (simp add: e pass_events_observers[OF that] invoked_concat_Notified occupied_def)
  show ?thesis
    using z(1) d f e g h by simp
qed



lemma watched_half_step_world:
  "watched_world half_step_args
     = \<lparr>iter = \<lparr>args = half_step_args, interval = 1 / 2, rate = 50, progress = Finite 0, time = 0,
                lastTick = 0, func = DEFAULT_FUNC, listeners = [Some (Listener 0 [])]\<rparr>,
        frames = [], promises = 0, trace = [], nearest = (\<lambda>x. x)\<rparr>"
  by (simp add: watched_world_def idle_world_def half_step_iterator subscribe_def)

theorem first_tick_accepted_witness:
  "iter (watched_world half_step_args) = reset (iter (watched_world half_step_args))
   \<and> 0 < rate (iter (watched_world half_step_args))
   \<and> 1000 / rate (iter (watched_world half_step_args)) \<le> 20
   \<and> lastTick (iter (watched_world half_step_args)) = 0
   \<and> due 20 (iter (watched_world half_step_args))
   \<and> time (iter (next_tick 20 21 () (watched_world half_step_args))) = 1 / 2
   \<and> lastTick (iter (next_tick 20 21 () (watched_world half_step_args))) = 21
   \<and> take 1 (emitted (watched_world half_step_args) (next_tick 20 21 () (watched_world half_step_args)))
       = [Update () (1 / 2)]
   \<and> invoked (emitted (watched_world half_step_args) (next_tick 20 21 () (watched_world half_step_args)))
       = [(0, Listener 0 [])]"
proof -
  let ?w = "watched_world half_step_args"
  have h1: "iter ?w = reset (iter ?w) \<or> iter ?w = new_AnimationIterator half_step_args"
    by (simp add: watched_half_step_world reset_def conditionalDefault_def
        or_else_def DEFAULT_PROGRESS_def DEFAULT_TIME_def DEFAULT_LAST_TICK_def)
       (simp add: half_step_args_def)
  have h1': "iter ?w = reset (iter ?w)"
    by (simp add: watched_half_step_world reset_def conditionalDefault_def
        or_else_def DEFAULT_PROGRESS_def DEFAULT_TIME_def DEFAULT_LAST_TICK_def)
       (simp add: half_step_args_def)
  have h2: "0 < rate (iter ?w)" by (simp add: watched_half_step_world)
  have h3: "1000 / rate (iter ?w) \<le> 20" by (simp add: watched_half_step_world)
  have o: "\<forall>cb. Some cb \<in> set (listeners (iter ?w)) \<longrightarrow> observer cb"
    by (simp add: watched_half_step_world observer_def)
  have v: "interval (iter ?w) = 1 / 2" "occupied (listeners (iter ?w)) = [(0, Listener 0 [])]"
    by (simp_all add: watched_half_step_world occupied_def)
  from first_tick_accepted[OF h1 h2 h3, of 21 "()"] o v h1' h2 h3
  show ?thesis by simp
qed

subsection \<open>Monotone progress\<close>

text \<open>
  Claim C7 says that the stored progress never decreases from one accepted tick to the
  next when the progress of the update function is non-decreasing in the elapsed time.
  The interval is not validated, and with a negative interval the elapsed time
  decreases: with the default update function, whose progress is the elapsed time, and
  an interval of \<open>- 1\<close>, two accepted ticks store the progress \<open>- 1\<close> and then \<open>- 2\<close>.
\<close>

theorem progress_monotone_counterexample:
  "(\<forall>t0. non_decreasing_from t0 (\<lambda>t. res_progress (func (iter (idle_world backward_args)) () t)))
   \<and> trace (run [(1000, 1001)] (snd (start () (idle_world backward_args))))
       = [Update () (- 1), Notified 0 (Completion 0 0) \<lparr>styles = [], res_progress = Finite (- 1)\<rparr>]
   \<and> progress (iter (run [(1000, 1001)] (snd (start () (idle_world backward_args))))) = Finite (- 1)
   \<and> trace (run [(1000, 1001), (2000, 2001)] (snd (start () (idle_world backward_args))))
       = [Update () (- 1), Notified 0 (Completion 0 0) \<lparr>styles = [], res_progress = Finite (- 1)\<rparr>,
          Update () (- 2), Notified 0 (Completion 0 0) \<lparr>styles = [], res_progress = Finite (- 2)\<rparr>]
   \<and> progress (iter (run [(1000, 1001), (2000, 2001)] (snd (start () (idle_world backward_args)))))
       = Finite (- 2)
   \<and> \<not> num_le (Finite (- 1)) (Finite (- 2))"
proof -
  have w0: "snd (start () (idle_world backward_args))
     = \<lparr>iter = \<lparr>args = backward_args, interval = - 1, rate = 50, progress = Finite 0, time = 0,
                lastTick = 0, func = DEFAULT_FUNC, listeners = [Some (Completion 0 0)]\<rparr>,
        frames = [()], promises = 1, trace = [], nearest = (\<lambda>x. x)\<rparr>"
    by (simp add: start_def idle_world_def new_AnimationIterator_def reset_def backward_args_def
        conditionalDefault_def or_else_def DEFAULT_PROGRESS_def DEFAULT_TIME_def
        DEFAULT_LAST_TICK_def requestAnimationFrame_def free_slot_def subscribe_def)
  have m: "\<forall>t0. non_decreasing_from t0 (\<lambda>t. res_progress (func (iter (idle_world backward_args)) () t))"
    by (simp add: idle_world_def new_AnimationIterator_def reset_def backward_args_def
        conditionalDefault_def or_else_def DEFAULT_FUNC_def non_decreasing_from_def)
  have r: "trace (run [(1000, 1001)] (snd (start () (idle_world backward_args))))
       = [Update () (- 1), Notified 0 (Completion 0 0) \<lparr>styles = [], res_progress = Finite (- 1)\<rparr>]
   \<and> progress (iter (run [(1000, 1001)] (snd (start () (idle_world backward_args))))) = Finite (- 1)
   \<and> trace (run [(1000, 1001), (2000, 2001)] (snd (start () (idle_world backward_args))))
       = [Update () (- 1), Notified 0 (Completion 0 0) \<lparr>styles = [], res_progress = Finite (- 1)\<rparr>,
          Update () (- 2), Notified 0 (Completion 0 0) \<lparr>styles = [], res_progress = Finite (- 2)\<rparr>]
   \<and> progress (iter (run [(1000, 1001), (2000, 2001)] (snd (start () (idle_world backward_args)))))
       = Finite (- 2)"
    unfolding w0
    by (simp add: run_def host_step_def next_tick_def due_def clamp_def DEFAULT_FUNC_def
        forEach_def visit_def emit_def requestAnimationFrame_def Let_def add_double_def)
  from m r show ?thesis by simp
qed

lemma num_le_trans: "num_le a b \<Longrightarrow> num_le b c \<Longrightarrow> num_le a c"
  by (cases a; cases b; cases c) simp_all

lemma clamp_mono:
  "num_le (res_progress a) (res_progress b) \<Longrightarrow> num_le (res_progress (clamp a)) (res_progress (clamp b))"
  by (cases "res_progress a"; cases "res_progress b") (simp_all add: clamp_def)

lemma add_double_cong: "nearest w = nearest w' \<Longrightarrow> add_double w a b = add_double w' a b"
  by (simp add: add_double_def)

lemma add_double_up:
  assumes "rounding (nearest w)" and "is_double w a" and "is_double w b" and "0 \<le> b"
  shows "a \<le> add_double w a b" and "is_double w (add_double w a b)"
proof -
  from assms(1) have idem: "nearest w (nearest w x) = nearest w x" for x
    by (simp add: rounding_def)
  from assms(1) have mono: "x \<le> y \<Longrightarrow> nearest w x \<le> nearest w y" for x y
    by (simp add: rounding_def)
  have "nearest w a \<le> nearest w (a + b)" by (rule mono) (use assms(4) in simp)
  then have "a \<le> nearest w (a + b)" using assms(2) by (simp add: is_double_def)
  then show "a \<le> add_double w a b" using assms(4) by (simp add: add_double_def)
  show "is_double w (add_double w a b)"
    using assms(2,3) by (simp add: add_double_def is_double_def idem)
qed

lemma host_step_steady:
  fixes w w0 :: "'i world"
  assumes "0 \<le> interval (iter w0)" and "rounding (nearest w0)"
      and "is_double w0 (interval (iter w0))"
      and "non_decreasing_from t0 (\<lambda>t. res_progress (func (iter w0) i t))"
      and "steady i t0 w0 w"
  shows "steady i t0 w0 (host_step c w) \<and> num_le (progress (iter w)) (progress (iter (host_step c w)))"
proof -
  from assms(5) have iv: "interval (iter w) = interval (iter w0)"
    and fn: "func (iter w) = func (iter w0)" and nr: "nearest w = nearest w0"
    and t0: "t0 \<le> time (iter w)" and td: "is_double w0 (time (iter w))"
    and fr: "set (frames w) \<subseteq> {i}"
    and pr: "progress (iter w) = res_progress (clamp (func (iter w0) i (time (iter w))))"
    by (simp_all add: steady_def)
  have self: "num_le (res_progress (func (iter w0) i (time (iter w))))
                     (res_progress (func (iter w0) i (time (iter w))))"
    using assms(4) t0 by (simp add: non_decreasing_from_def)
  have refl: "num_le (progress (iter w)) (progress (iter w))"
    unfolding pr by (rule clamp_mono[OF self])
  show ?thesis
  proof (cases "frames w")
    case Nil
    then show ?thesis using assms(5) refl by (simp add: host_step_def)
  next
    case (Cons i' rest)
    with fr have i': "i' = i" and rest: "set rest \<subseteq> {i}" by auto
    let ?v = "w\<lparr>frames := rest\<rparr>"
    have hs: "host_step c w = next_tick (fst c) (snd c) i ?v"
      by (simp add: host_step_def Cons i')
    show ?thesis
    proof (cases "due (fst c) (iter ?v)")
      case False
      then show ?thesis
        using refl rest iv fn nr t0 td pr by (simp add: hs next_tick_rejected steady_def)
    next
      case True
      define t where "t = add_double w0 (time (iter w)) (interval (iter w0))"
      have at: "add_double ?v (time (iter w)) (interval (iter w)) = t"
        unfolding t_def iv by (rule add_double_cong) (simp add: nr)
      have at': "add_double ?v (time (iter w)) (interval (iter w0)) = t"
        unfolding t_def by (rule add_double_cong) (simp add: nr)
      have up: "time (iter w) \<le> t" and dt: "is_double w0 t"
        unfolding t_def by (rule add_double_up[OF assms(2) td assms(3,1)])+
      with t0 have t0': "t0 \<le> t" by simp
      have "num_le (res_progress (func (iter w0) i (time (iter w))))
                   (res_progress (func (iter w0) i t))"
        using assms(4) t0 up by (simp add: non_decreasing_from_def)
      from clamp_mono[OF this]
      have le: "num_le (progress (iter w)) (res_progress (clamp (func (iter w0) i t)))"
        by (simp add: pr)
      have st: "steady i t0 w0 (next_tick (fst c) (snd c) i ?v)"
        using rest t0' dt iv fn nr
        by (simp add: next_tick_accepted[OF True] Let_def steady_def at at')
      have "progress (iter (next_tick (fst c) (snd c) i ?v)) = res_progress (clamp (func (iter w0) i t))"
        by (simp add: next_tick_accepted[OF True] Let_def at at' fn)
      with le st show ?thesis by (simp add: hs)
    qed
  qed
qed

lemma run_steady:
  fixes w w0 :: "'i world"
  assumes "0 \<le> interval (iter w0)" and "rounding (nearest w0)"
      and "is_double w0 (interval (iter w0))"
      and "non_decreasing_from t0 (\<lambda>t. res_progress (func (iter w0) i t))"
  shows "steady i t0 w0 w
           \<Longrightarrow> steady i t0 w0 (run cs w) \<and> num_le (progress (iter w)) (progress (iter (run cs w)))"
proof (induction cs arbitrary: w)
  case Nil
  from Nil have pr: "progress (iter w) = res_progress (clamp (func (iter w0) i (time (iter w))))"
    and t0: "t0 \<le> time (iter w)" by (simp_all add: steady_def)
  have "num_le (res_progress (func (iter w0) i (time (iter w))))
               (res_progress (func (iter w0) i (time (iter w))))"
    using assms(4) t0 by (simp add: non_decreasing_from_def)
  from clamp_mono[OF this] have "num_le (progress (iter w)) (progress (iter w))" by (simp add: pr)
  with Nil show ?case by (simp add: run_def)
next
  case (Cons c cs)
  note s = host_step_steady[OF assms Cons.prems, of c]
  note t = Cons.IH[OF conjunct1[OF s]]
  have r: "run (c # cs) w = run cs (host_step c w)" by (simp add: run_def)
  have "num_le (progress (iter w)) (progress (iter (run cs (host_step c w))))"
    by (rule num_le_trans[OF conjunct2[OF s] conjunct2[OF t]])
  with conjunct1[OF t] show ?case by (simp only: r simp_thms)
qed

text \<open>
  Claim C7, amended: for a non-negative interval, and an update function whose progress
  does not decrease from the current elapsed time on (as the square of the elapsed time
  that the demonstration page uses, from zero on). Take any state in which the pending
  frame callbacks, if any, carry the same \<open>initialState\<close>, and an accepted tick in it.
  Along every further run of the host, whatever the clock readings, accepted and
  rejected, the stored progress never decreases. The accepted tick adds the interval to
  the elapsed time as doubles are added: the new elapsed time is the sum rounded (it is
  the exact sum when one of the two is zero, and whenever the exact sum is a double), and
  it is not less than the old one. Of the rounding the statement uses that it is
  monotone and leaves its results as they are, and of the elapsed time and the interval
  that they are doubles, as all numbers of the program are.
\<close>

theorem progress_monotone:
  fixes w :: "'i world"
  assumes "0 \<le> interval (iter w)"
      and "rounding (nearest w)" and "is_double w (time (iter w))" and "is_double w (interval (iter w))"
      and "non_decreasing_from (time (iter w)) (\<lambda>t. res_progress (func (iter w) i t))"
      and "set (frames w) \<subseteq> {i}" and "due now (iter w)"
  shows "num_le (progress (iter (run cs (next_tick now now' i w))))
                (progress (iter (run (cs @ cs') (next_tick now now' i w))))
         \<and> time (iter (next_tick now now' i w))
             = (if time (iter w) = 0 then interval (iter w)
                else if interval (iter w) = 0 then time (iter w)
                else nearest w (time (iter w) + interval (iter w)))
         \<and> (is_double w (time (iter w) + interval (iter w))
              \<longrightarrow> time (iter (next_tick now now' i w)) = time (iter w) + interval (iter w))
         \<and> time (iter w) \<le> time (iter (next_tick now now' i w))"
proof -
  let ?w1 = "next_tick now now' i w"
  note ad = add_double_up[OF assms(2,3,4,1)]
  have tm: "time (iter ?w1) = add_double w (time (iter w)) (interval (iter w))"
    by (simp add: next_tick_accepted[OF assms(7)] Let_def)
  have a: "steady i (time (iter w)) w ?w1"
    using assms(6) ad by (simp add: next_tick_accepted[OF assms(7)] Let_def steady_def)
  note b = run_steady[OF assms(1,2,4,5) a, of cs]
  note c = run_steady[OF assms(1,2,4,5) conjunct1[OF b], of cs']
  have r: "run (cs @ cs') ?w1 = run cs' (run cs ?w1)" by (simp add: run_def)
  have g1: "num_le (progress (iter (run cs ?w1))) (progress (iter (run (cs @ cs') ?w1)))"
    unfolding r by (rule conjunct2[OF c])
  have g2: "time (iter ?w1)
             = (if time (iter w) = 0 then interval (iter w)
                else if interval (iter w) = 0 then time (iter w)
                else nearest w (time (iter w) + interval (iter w)))"
    by (simp add: tm add_double_def)
  have g3: "time (iter ?w1) = time (iter w) + interval (iter w)"
    if "is_double w (time (iter w) + interval (iter w))"
    using that by (simp add: tm add_double_def is_double_def)
  have g4: "time (iter w) \<le> time (iter ?w1)" unfolding tm by (rule ad(1))
  from g1 g2 g3 g4 show ?thesis by blast
qed

lemma idle_square_world:
  "idle_world square_args
     = \<lparr>iter = \<lparr>args = square_args, interval = 1 / 2, rate = 60, progress = Finite 0, time = 0,
                lastTick = 0, func = (\<lambda>initialState t. \<lparr>styles = [], res_progress = Finite (t * t)\<rparr>),
                listeners = []\<rparr>,
        frames = [], promises = 0, trace = [], nearest = (\<lambda>x. x)\<rparr>"
  by (simp add: idle_world_def new_AnimationIterator_def reset_def
      square_args_def conditionalDefault_def or_else_def
      DEFAULT_PROGRESS_def DEFAULT_TIME_def DEFAULT_LAST_TICK_def)

theorem progress_monotone_witness:
  "0 \<le> interval (iter (idle_world square_args))
   \<and> rounding (nearest (idle_world square_args))
   \<and> is_double (idle_world square_args) (time (iter (idle_world square_args)))
   \<and> is_double (idle_world square_args) (interval (iter (idle_world square_args)))
   \<and> non_decreasing_from (time (iter (idle_world square_args)))
         (\<lambda>t. res_progress (func (iter (idle_world square_args)) () t))
   \<and> set (frames (idle_world square_args)) \<subseteq> {()}
   \<and> due 1000 (iter (idle_world square_args))
   \<and> progress (iter (run [] (next_tick 1000 1001 () (idle_world square_args)))) = Finite (1 / 4)
   \<and> progress (iter (run ([] @ [(2000, 2001)]) (next_tick 1000 1001 () (idle_world square_args))))
       = Finite 1
   \<and> num_le (progress (iter (run [] (next_tick 1000 1001 () (idle_world square_args)))))
         (progress (iter (run ([] @ [(2000, 2001)]) (next_tick 1000 1001 () (idle_world square_args)))))
   \<and> time (iter (next_tick 1000 1001 () (idle_world square_args))) = 1 / 2
   \<and> time (iter (run [(2000, 2001)] (next_tick 1000 1001 () (idle_world square_args)))) = 1"
proof -
  let ?w = "idle_world square_args"
  have h1: "0 \<le> interval (iter ?w)" by (simp add: idle_square_world)
  have h2: "rounding (nearest ?w)" by (simp add: idle_square_world rounding_def)
  have h3: "is_double ?w (time (iter ?w))" "is_double ?w (interval (iter ?w))"
    by (simp_all add: idle_square_world is_double_def)
  have h4: "non_decreasing_from (time (iter ?w)) (\<lambda>t. res_progress (func (iter ?w) () t))"
    by (simp add: idle_square_world non_decreasing_from_def mult_mono)
  have h5: "set (frames ?w) \<subseteq> {()}" by (simp add: idle_square_world)
  have h6: "due 1000 (iter ?w)" by (simp add: idle_square_world due_def)
  have v: "progress (iter (run [] (next_tick 1000 1001 () ?w))) = Finite (1 / 4)"
          "progress (iter (run ([] @ [(2000, 2001)]) (next_tick 1000 1001 () ?w))) = Finite 1"
          "time (iter (run [(2000, 2001)] (next_tick 1000 1001 () ?w))) = 1"
    unfolding idle_square_world
    by (simp_all add: run_def host_step_def next_tick_def due_def clamp_def
        forEach_def emit_def requestAnimationFrame_def Let_def add_double_def)
  have i: "time (iter ?w) = 0" "interval (iter ?w) = 1 / 2" by (simp_all add: idle_square_world)
  from progress_monotone[OF h1 h2 h3 h4 h5 h6, of "[]" 1001 "[(2000, 2001)]"] h1 h2 h3 h4 h5 h6 v
  show ?thesis by (simp add: i)
qed

subsection \<open>Resetting\<close>


subsection \<open>Unsubscribing during a pass\<close>

lemma invoked_append: "invoked (xs @ ys) = invoked xs @ invoked ys"
  by (induction xs rule: invoked.induct) simp_all

lemma invoked_cb_events: "invoked (cb_events cb st) = []"
  by (cases cb) simp_all

lemma invoked_visit_events: "invoked (visit_events k st ls) = visit_invoked k ls"
  by (simp add: visit_events_def visit_invoked_def invoked_cb_events split: option.splits)

lemma invoked_pass_events: "invoked (pass_events k n st ls) = pass_invoked k n st ls"
  by (induction n arbitrary: k ls) (simp_all add: invoked_append invoked_visit_events)

lemma fold_unsub:
  assumes "list_all is_unsub body"
  shows "length (fold reg_exec body ls) = length ls
         \<and> (\<forall>j < length ls. fold reg_exec body ls ! j
                = (if j \<in> set (concat (map slot_of body)) then None else ls ! j))"
  using assms
proof (induction body arbitrary: ls)
  case Nil then show ?case by simp
next
  case (Cons a body)
  then obtain i where a: "a = Unsubscribe i" by (cases a) auto
  from Cons.prems have "list_all is_unsub body" by simp
  from Cons.IH[OF this, of "ls[i := None]"] show ?case
    by (auto simp: a nth_list_update)
qed

lemma cb_reg_unsub:
  assumes "unsubscribing cb"
  shows "length (cb_reg cb st ls) = length ls"
    and "j < length ls \<Longrightarrow> cb_reg cb st ls ! j = (if j \<in> set (clears cb st) then None else ls ! j)"
proof -
  show "length (cb_reg cb st ls) = length ls"
    using assms fold_unsub by (cases cb) auto
  show "j < length ls \<Longrightarrow> cb_reg cb st ls ! j = (if j \<in> set (clears cb st) then None else ls ! j)"
    using assms fold_unsub by (cases cb) (auto simp: nth_list_update)
qed

lemma reg_visit_unsub:
  assumes "\<forall>cb. Some cb \<in> set ls \<longrightarrow> unsubscribing cb" and "k < length ls"
  shows "length (reg_visit k st ls) = length ls"
    and "\<forall>j < length ls. reg_visit k st ls ! j
           = (if \<exists>cb. ls ! k = Some cb \<and> j \<in> set (clears cb st) then None else ls ! j)"
    and "\<forall>cb. Some cb \<in> set (reg_visit k st ls) \<longrightarrow> unsubscribing cb"
proof -
  show l: "length (reg_visit k st ls) = length ls"
  proof (cases "ls ! k")
    case None then show ?thesis by (simp add: reg_visit_def)
  next
    case (Some cb)
    with assms have "unsubscribing cb" by (metis nth_mem)
    then show ?thesis using Some assms(2) by (simp add: reg_visit_def cb_reg_unsub)
  qed
  show n: "\<forall>j < length ls. reg_visit k st ls ! j
           = (if \<exists>cb. ls ! k = Some cb \<and> j \<in> set (clears cb st) then None else ls ! j)"
  proof (cases "ls ! k")
    case None then show ?thesis by (simp add: reg_visit_def)
  next
    case (Some cb)
    with assms have "unsubscribing cb" by (metis nth_mem)
    then show ?thesis using Some assms(2) by (simp add: reg_visit_def cb_reg_unsub)
  qed
  show "\<forall>cb. Some cb \<in> set (reg_visit k st ls) \<longrightarrow> unsubscribing cb"
  proof (intro allI impI)
    fix cb assume "Some cb \<in> set (reg_visit k st ls)"
    then obtain j where j: "j < length ls" "reg_visit k st ls ! j = Some cb"
      using l by (metis in_set_conv_nth)
    with n have "ls ! j = Some cb" by (auto split: if_splits)
    with j(1) assms(1) show "unsubscribing cb" by (metis nth_mem)
  qed
qed

lemma pass_unsub:
  "k + n = m \<Longrightarrow> m \<le> length ls \<Longrightarrow> \<forall>cb. Some cb \<in> set ls \<longrightarrow> unsubscribing cb \<Longrightarrow>
     length (pass_reg k n st ls) = length ls
   \<and> (\<forall>j < length ls. pass_reg k n st ls ! j = ls ! j \<or> pass_reg k n st ls ! j = None)
   \<and> (\<forall>x \<in> set (pass_invoked k n st ls). k \<le> fst x \<and> fst x < m \<and> ls ! fst x = Some (snd x))
   \<and> sorted_wrt (<) (map fst (pass_invoked k n st ls))
   \<and> (\<forall>j. k \<le> j \<and> j < m \<longrightarrow>
          (j \<in> fst ` set (pass_invoked k n st ls))
            = (ls ! j \<noteq> None
               \<and> (\<forall>x \<in> set (pass_invoked k n st ls). fst x < j \<longrightarrow> j \<notin> set (clears (snd x) st))))"
proof (induction n arbitrary: k ls)
  case 0
  then show ?case by auto
next
  case (Suc n)
  let ?ls1 = "reg_visit k st ls"
  let ?vi = "visit_invoked k ls"
  let ?rest = "pass_invoked (Suc k) n st ?ls1"
  from Suc.prems have k: "k < length ls" "k < m" by simp_all
  note rv = reg_visit_unsub[OF Suc.prems(3) k(1), of st]
  have ih: "length (pass_reg (Suc k) n st ?ls1) = length ?ls1
   \<and> (\<forall>j < length ?ls1. pass_reg (Suc k) n st ?ls1 ! j = ?ls1 ! j \<or> pass_reg (Suc k) n st ?ls1 ! j = None)
   \<and> (\<forall>x \<in> set ?rest. Suc k \<le> fst x \<and> fst x < m \<and> ?ls1 ! fst x = Some (snd x))
   \<and> sorted_wrt (<) (map fst ?rest)
   \<and> (\<forall>j. Suc k \<le> j \<and> j < m \<longrightarrow>
          (j \<in> fst ` set ?rest)
            = (?ls1 ! j \<noteq> None
               \<and> (\<forall>x \<in> set ?rest. fst x < j \<longrightarrow> j \<notin> set (clears (snd x) st))))"
    by (rule Suc.IH) (use Suc.prems rv in simp_all)
  from ih have i1: "length (pass_reg (Suc k) n st ?ls1) = length ?ls1" by (rule conjunct1)
  from ih have i2: "\<forall>j < length ?ls1. pass_reg (Suc k) n st ?ls1 ! j = ?ls1 ! j \<or> pass_reg (Suc k) n st ?ls1 ! j = None"
    by (elim conjE)
  from ih have i3: "\<forall>x \<in> set ?rest. Suc k \<le> fst x \<and> fst x < m \<and> ?ls1 ! fst x = Some (snd x)"
    by (elim conjE)
  from ih have i4: "sorted_wrt (<) (map fst ?rest)" by (elim conjE)
  from ih have i5: "\<forall>j. Suc k \<le> j \<and> j < m \<longrightarrow>
          (j \<in> fst ` set ?rest)
            = (?ls1 ! j \<noteq> None
               \<and> (\<forall>x \<in> set ?rest. fst x < j \<longrightarrow> j \<notin> set (clears (snd x) st)))"
    by (elim conjE)
  have vi: "?vi = (case ls ! k of None \<Rightarrow> [] | Some cb \<Rightarrow> [(k, cb)])"
    using k by (simp add: visit_invoked_def)
  have inv: "pass_invoked k (Suc n) st ls = ?vi @ ?rest" by simp
  have keep: "?ls1 ! j = Some cb \<Longrightarrow> ls ! j = Some cb" if "j < length ls" for j cb
    using rv(2) that by (auto split: if_splits)
  have g1: "length (pass_reg k (Suc n) st ls) = length ls"
    using i1 rv(1) by simp
  have g2: "\<forall>j < length ls. pass_reg k (Suc n) st ls ! j = ls ! j \<or> pass_reg k (Suc n) st ls ! j = None"
  proof (intro allI impI)
    fix j assume j: "j < length ls"
    then have "pass_reg (Suc k) n st ?ls1 ! j = ?ls1 ! j \<or> pass_reg (Suc k) n st ?ls1 ! j = None"
      using i2 rv(1) by simp
    moreover have "?ls1 ! j = ls ! j \<or> ?ls1 ! j = None" using rv(2) j by simp
    ultimately show "pass_reg k (Suc n) st ls ! j = ls ! j \<or> pass_reg k (Suc n) st ls ! j = None"
      by auto
  qed
  have g3: "\<forall>x \<in> set (pass_invoked k (Suc n) st ls). k \<le> fst x \<and> fst x < m \<and> ls ! fst x = Some (snd x)"
  proof
    fix x assume "x \<in> set (pass_invoked k (Suc n) st ls)"
    then consider "x \<in> set ?vi" | "x \<in> set ?rest" unfolding inv by auto
    then show "k \<le> fst x \<and> fst x < m \<and> ls ! fst x = Some (snd x)"
    proof cases
      case 1 then show ?thesis using k by (auto simp: vi split: option.splits)
    next
      case 2
      with i3 have x: "Suc k \<le> fst x" "fst x < m" "?ls1 ! fst x = Some (snd x)" by auto
      with keep[of "fst x" "snd x"] Suc.prems(2) show ?thesis by simp
    qed
  qed
  have g4: "sorted_wrt (<) (map fst (pass_invoked k (Suc n) st ls))"
    unfolding inv using i3 i4 by (auto simp: sorted_wrt_append vi split: option.splits)
  have g5: "(j \<in> fst ` set (pass_invoked k (Suc n) st ls))
            = (ls ! j \<noteq> None
               \<and> (\<forall>x \<in> set (pass_invoked k (Suc n) st ls). fst x < j \<longrightarrow> j \<notin> set (clears (snd x) st)))"
    if j: "k \<le> j" "j < m" for j
  proof (cases "j = k")
    case True
    have "k \<notin> fst ` set ?rest" using i3 by auto
    then have "(k \<in> fst ` set (pass_invoked k (Suc n) st ls)) = (ls ! k \<noteq> None)"
      unfolding inv by (auto simp: vi split: option.splits)
    moreover have "\<forall>x \<in> set (pass_invoked k (Suc n) st ls). \<not> fst x < k"
    proof
      fix x assume "x \<in> set (pass_invoked k (Suc n) st ls)"
      with g3 have "k \<le> fst x" by blast
      then show "\<not> fst x < k" by simp
    qed
    ultimately show ?thesis using True by auto
  next
    case False
    with j have sj: "Suc k \<le> j" by simp
    have jl: "j < length ls" using j Suc.prems(2) by simp
    have "j \<notin> fst ` set ?vi" using False by (auto simp: vi split: option.splits)
    then have "(j \<in> fst ` set (pass_invoked k (Suc n) st ls)) = (j \<in> fst ` set ?rest)"
      unfolding inv by auto
    also have "\<dots> = (?ls1 ! j \<noteq> None
               \<and> (\<forall>x \<in> set ?rest. fst x < j \<longrightarrow> j \<notin> set (clears (snd x) st)))"
      using i5 sj j(2) by simp
    also have "(?ls1 ! j \<noteq> None)
                 = (ls ! j \<noteq> None \<and> (\<forall>x \<in> set ?vi. fst x < j \<longrightarrow> j \<notin> set (clears (snd x) st)))"
      using rv(2) jl sj by (auto simp: vi split: option.splits)
    finally show ?thesis unfolding inv by auto
  qed
  show ?case using g1 g2 g3 g4 g5 by blast
qed

text \<open>
  Claim C5. In an accepted tick whose listeners call unsubscribe closures, their own or
  others', the pass is not disturbed. No slot shifts: the registry keeps its length and
  every slot keeps its listener or is empty afterwards. The listeners are invoked in slot
  order, each from the slot it occupied when the pass began. A slot is invoked exactly
  when it was occupied at the start of the pass and no callback invoked before it in this
  pass cleared it: a slot that is empty when the pass reaches it, also one cleared
  earlier in the same pass, is skipped, and every other occupied slot is invoked.
\<close>

theorem unsubscribe_during_pass:
  fixes w :: "'i world"
  assumes "due now (iter w)"
      and "\<forall>cb. Some cb \<in> set (listeners (iter w)) \<longrightarrow> unsubscribing cb"
  shows "length (listeners (iter (next_tick now now' i w))) = length (listeners (iter w))
   \<and> (\<forall>j < length (listeners (iter w)).
         listeners (iter (next_tick now now' i w)) ! j = listeners (iter w) ! j
         \<or> listeners (iter (next_tick now now' i w)) ! j = None)
   \<and> sorted_wrt (<) (map fst (invoked (emitted w (next_tick now now' i w))))
   \<and> (\<forall>x \<in> set (invoked (emitted w (next_tick now now' i w))).
         fst x < length (listeners (iter w)) \<and> listeners (iter w) ! fst x = Some (snd x))
   \<and> (\<forall>j < length (listeners (iter w)).
         (j \<in> fst ` set (invoked (emitted w (next_tick now now' i w))))
           = (listeners (iter w) ! j \<noteq> None
              \<and> (\<forall>x \<in> set (invoked (emitted w (next_tick now now' i w))).
                     fst x < j \<longrightarrow>
                     j \<notin> set (clears (snd x)
                                 (clamp (func (iter w) i (add_double w (time (iter w)) (interval (iter w)))))))))"
proof -
  let ?ls = "listeners (iter w)"
  let ?st = "clamp (func (iter w) i (add_double w (time (iter w)) (interval (iter w))))"
  let ?es = "pass_events 0 (length ?ls) ?st ?ls :: 'i event list"
  have e: "emitted w (next_tick now now' i w) = Update i (add_double w (time (iter w)) (interval (iter w))) # ?es"
    by (rule emitted_app) (simp add: next_tick_accepted[OF assms(1)] Let_def)
  have inv: "invoked (emitted w (next_tick now now' i w)) = pass_invoked 0 (length ?ls) ?st ?ls"
    by (simp add: e invoked_pass_events)
  have reg: "listeners (iter (next_tick now now' i w)) = pass_reg 0 (length ?ls) ?st ?ls"
    by (simp add: next_tick_accepted[OF assms(1)] Let_def)
  have "0 + length ?ls = length ?ls" by simp
  from pass_unsub[OF this order_refl assms(2), of ?st]
  show ?thesis unfolding inv reg by simp
qed

lemma removing_world_eq:
  "removing_world
     = \<lparr>iter = \<lparr>args = half_step_args, interval = 1 / 2, rate = 50, progress = Finite 0, time = 0,
                lastTick = 0, func = DEFAULT_FUNC,
                listeners = [Some (Listener 0 [Unsubscribe 0, Unsubscribe 2]), Some (Listener 1 []),
                             Some (Listener 2 []), Some (Listener 3 [Unsubscribe 1])]\<rparr>,
        frames = [], promises = 0, trace = [], nearest = (\<lambda>x. x)\<rparr>"
  by (simp add: removing_world_def idle_world_def half_step_iterator subscribe_all_def subscribe_def)

theorem unsubscribe_during_pass_witness:
  "due 1000 (iter removing_world)
   \<and> list_all (\<lambda>s. case s of None \<Rightarrow> True | Some cb \<Rightarrow> unsubscribing cb) (listeners (iter removing_world))
   \<and> invoked (emitted removing_world (next_tick 1000 1001 () removing_world))
       = [(0, Listener 0 [Unsubscribe 0, Unsubscribe 2]), (1, Listener 1 []),
          (3, Listener 3 [Unsubscribe 1])]
   \<and> listeners (iter (next_tick 1000 1001 () removing_world))
       = [None, None, None, Some (Listener 3 [Unsubscribe 1])]
   \<and> length (listeners (iter (next_tick 1000 1001 () removing_world)))
       = length (listeners (iter removing_world))
   \<and> sorted_wrt (<) (map fst (invoked (emitted removing_world (next_tick 1000 1001 () removing_world))))"
proof -
  have h1: "due 1000 (iter removing_world)" by (simp add: removing_world_eq due_def)
  have h2: "\<forall>cb. Some cb \<in> set (listeners (iter removing_world)) \<longrightarrow> unsubscribing cb"
    by (auto simp: removing_world_eq)
  have v: "invoked (emitted removing_world (next_tick 1000 1001 () removing_world))
       = [(0, Listener 0 [Unsubscribe 0, Unsubscribe 2]), (1, Listener 1 []),
          (3, Listener 3 [Unsubscribe 1])]"
      "listeners (iter (next_tick 1000 1001 () removing_world))
       = [None, None, None, Some (Listener 3 [Unsubscribe 1])]"
    unfolding removing_world_eq
    by (simp_all add: next_tick_def due_def clamp_def DEFAULT_FUNC_def forEach_def visit_def
        emit_def emitted_def requestAnimationFrame_def unsubscribe_def Let_def)
  from unsubscribe_during_pass[OF h1 h2, of 1001 "()"] v h1
  show ?thesis by (simp add: removing_world_eq)
qed

subsection \<open>Subscribing during a pass\<close>














subsection \<open>The promise of \<open>start\<close>\<close>

lemma resolutions_append: "resolutions (xs @ ys) = resolutions xs @ resolutions ys"
  by (induction xs rule: resolutions.induct) simp_all

lemma ticks_append: "ticks (xs @ ys) = ticks xs + ticks ys"
  by (induction xs rule: ticks.induct) simp_all

lemma fulfilments_append: "fulfilments p (xs @ ys) = fulfilments p xs @ fulfilments p ys"
  by (simp add: fulfilments_def resolutions_append)

lemma resolutions_cb_events: "resolutions (cb_events cb st) = cb_resolved cb st"
  by (cases cb) simp_all

lemma resolutions_visit_events: "resolutions (visit_events k st ls) = visit_resolved k st ls"
  by (simp add: visit_events_def visit_resolved_def resolutions_cb_events split: option.splits)

lemma resolutions_pass_events: "resolutions (pass_events k n st ls) = pass_resolved k n st ls"
  by (induction n arbitrary: k ls) (simp_all add: resolutions_append resolutions_visit_events)

lemma ticks_cb_events: "ticks (cb_events cb st) = 0"
  by (cases cb) simp_all

lemma ticks_visit_events: "ticks (visit_events k st ls) = 0"
  by (simp add: visit_events_def ticks_cb_events split: option.splits)

lemma ticks_pass_events: "ticks (pass_events k n st ls) = 0"
  by (induction n arbitrary: k ls) (simp_all add: ticks_append ticks_visit_events)

lemma updated_nth: "m < length ls \<Longrightarrow> ls[i := v] ! m = (if i = m then v else ls ! m)"
  by (simp add: nth_list_update)

lemma cleared_nth: "ls[i := None] ! m = Some cb \<Longrightarrow> ls ! m = Some cb"
proof (cases "i < length ls")
  case True
  assume "ls[i := None] ! m = Some cb"
  then show ?thesis using True by (cases "i = m") simp_all
next
  case False
  assume "ls[i := None] ! m = Some cb"
  moreover have "ls[i := None] = ls" using False by (simp add: list_update_beyond)
  ultimately show ?thesis by simp
qed

lemma reg_exec_safe:
  assumes "\<not> meddles_act j p a" and "safe_reg j p ls"
  shows "safe_reg j p (reg_exec a ls)"
proof (cases a)
  case (Unsubscribe i)
  with assms show ?thesis by (auto simp: safe_reg_def dest: cleared_nth)
next
  case (Subscribe cb)
  with assms have cb: "\<not> meddles j p cb" by simp
  show ?thesis
  proof (cases "empty_slot ls")
    case None
    with assms(2) cb show ?thesis
      by (auto simp: Subscribe safe_reg_def nth_append less_Suc_eq)
  next
    case (Some e)
    with assms(2) cb show ?thesis
      by (auto simp: Subscribe safe_reg_def updated_nth split: if_splits)
  qed
qed

lemma reg_exec_armed:
  assumes "\<not> meddles_act j p a" and "armed j p ls"
  shows "armed j p (reg_exec a ls)"
proof (cases a)
  case (Unsubscribe i)
  with assms show ?thesis by (auto simp: armed_def dest: cleared_nth)
next
  case (Subscribe cb)
  with assms have cb: "\<not> meddles j p cb" by simp
  show ?thesis
  proof (cases "empty_slot ls")
    case None
    with assms(2) cb show ?thesis
      by (auto simp: Subscribe armed_def nth_append less_Suc_eq)
  next
    case (Some e)
    from empty_slot_Some[OF Some] assms(2) have "e \<noteq> j" by (auto simp: armed_def)
    with Some assms(2) cb show ?thesis
      by (auto simp: Subscribe armed_def updated_nth split: if_splits)
  qed
qed

lemma fold_reg_exec_safe:
  "\<forall>a \<in> set body. \<not> meddles_act j p a \<Longrightarrow> safe_reg j p ls \<Longrightarrow> safe_reg j p (fold reg_exec body ls)"
  by (induction body arbitrary: ls) (simp_all add: reg_exec_safe)

lemma fold_reg_exec_armed:
  "\<forall>a \<in> set body. \<not> meddles_act j p a \<Longrightarrow> armed j p ls \<Longrightarrow> armed j p (fold reg_exec body ls)"
  by (induction body arbitrary: ls) (simp_all add: reg_exec_armed)

lemma cb_reg_safe:
  assumes "\<not> meddles j p cb" and "safe_reg j p ls"
  shows "safe_reg j p (cb_reg cb st ls)"
proof (cases cb)
  case (Listener tag body)
  with assms show ?thesis by (simp add: fold_reg_exec_safe)
next
  case (Completion i q)
  with assms show ?thesis by (auto simp: safe_reg_def dest: cleared_nth)
qed

lemma cb_reg_armed:
  assumes "\<not> meddles j p cb" and "armed j p ls"
  shows "armed j p (cb_reg cb st ls)"
proof (cases cb)
  case (Listener tag body)
  with assms show ?thesis by (simp add: fold_reg_exec_armed)
next
  case (Completion i q)
  with assms show ?thesis by (auto simp: armed_def dest: cleared_nth)
qed

lemma cb_resolved_safe:
  "\<not> meddles j p cb \<Longrightarrow> filter (\<lambda>x. fst x = p) (cb_resolved cb st) = []"
  by (cases cb) auto

lemma reg_visit_safe:
  assumes "safe_reg j p ls"
  shows "safe_reg j p (reg_visit k st ls)"
    and "filter (\<lambda>x. fst x = p) (visit_resolved k st ls) = []"
proof -
  show "safe_reg j p (reg_visit k st ls)"
  proof (cases "k < length ls")
    case False then show ?thesis using assms by (simp add: reg_visit_def)
  next
    case True
    show ?thesis
    proof (cases "ls ! k")
      case None then show ?thesis using assms by (simp add: reg_visit_def)
    next
      case (Some cb)
      with assms True have "\<not> meddles j p cb" by (simp add: safe_reg_def)
      from cb_reg_safe[OF this assms] show ?thesis using Some True by (simp add: reg_visit_def)
    qed
  qed
  show "filter (\<lambda>x. fst x = p) (visit_resolved k st ls) = []"
  proof (cases "k < length ls")
    case False
    then have "visit_resolved k st ls = []" by (simp add: visit_resolved_def)
    then show ?thesis by simp
  next
    case True
    show ?thesis
    proof (cases "ls ! k")
      case None
      then have "visit_resolved k st ls = []" by (simp add: visit_resolved_def)
      then show ?thesis by simp
    next
      case (Some cb)
      with assms True have "\<not> meddles j p cb" by (simp add: safe_reg_def)
      moreover have "visit_resolved k st ls = cb_resolved cb st"
        using Some True by (simp add: visit_resolved_def)
      ultimately show ?thesis using cb_resolved_safe[of j p cb st] by simp
    qed
  qed
qed

lemma reg_visit_armed_other:
  assumes "armed j p ls" and "k \<noteq> j"
  shows "armed j p (reg_visit k st ls)"
    and "filter (\<lambda>x. fst x = p) (visit_resolved k st ls) = []"
proof -
  show "armed j p (reg_visit k st ls)"
  proof (cases "k < length ls")
    case False then show ?thesis using assms by (simp add: reg_visit_def)
  next
    case True
    show ?thesis
    proof (cases "ls ! k")
      case None then show ?thesis using assms by (simp add: reg_visit_def)
    next
      case (Some cb)
      with assms True have "\<not> meddles j p cb" by (simp add: armed_def)
      from cb_reg_armed[OF this assms(1)] show ?thesis using Some True by (simp add: reg_visit_def)
    qed
  qed
  show "filter (\<lambda>x. fst x = p) (visit_resolved k st ls) = []"
  proof (cases "k < length ls")
    case False
    then have "visit_resolved k st ls = []" by (simp add: visit_resolved_def)
    then show ?thesis by simp
  next
    case True
    show ?thesis
    proof (cases "ls ! k")
      case None
      then have "visit_resolved k st ls = []" by (simp add: visit_resolved_def)
      then show ?thesis by simp
    next
      case (Some cb)
      with assms True have "\<not> meddles j p cb" by (simp add: armed_def)
      moreover have "visit_resolved k st ls = cb_resolved cb st"
        using Some True by (simp add: visit_resolved_def)
      ultimately show ?thesis using cb_resolved_safe[of j p cb st] by simp
    qed
  qed
qed

lemma reg_visit_armed_self:
  assumes "armed j p ls"
  shows "res_progress st \<noteq> Finite 1 \<Longrightarrow> reg_visit j st ls = ls \<and> visit_resolved j st ls = []"
    and "res_progress st = Finite 1 \<Longrightarrow> safe_reg j p (reg_visit j st ls) \<and> visit_resolved j st ls = [(p, st)]
           \<and> reg_visit j st ls = ls[j := None]"
  using assms by (auto simp: armed_def safe_reg_def reg_visit_def visit_resolved_def updated_nth)

lemma pass_safe:
  "safe_reg j p ls \<Longrightarrow> safe_reg j p (pass_reg k n st ls)
      \<and> filter (\<lambda>x. fst x = p) (pass_resolved k n st ls) = []"
proof (induction n arbitrary: k ls)
  case 0 then show ?case by simp
next
  case (Suc n)
  note v = reg_visit_safe[OF Suc.prems, of k st]
  from Suc.IH[OF v(1), of "Suc k"] v(2) show ?case by simp
qed

lemma pass_armed_idle:
  assumes "res_progress st \<noteq> Finite 1"
  shows "armed j p ls \<Longrightarrow> armed j p (pass_reg k n st ls)
      \<and> filter (\<lambda>x. fst x = p) (pass_resolved k n st ls) = []"
proof (induction n arbitrary: k ls)
  case 0 then show ?case by simp
next
  case (Suc n)
  have v: "armed j p (reg_visit k st ls) \<and> filter (\<lambda>x. fst x = p) (visit_resolved k st ls) = []"
  proof (cases "k = j")
    case True
    with reg_visit_armed_self(1)[OF Suc.prems assms] Suc.prems show ?thesis by simp
  next
    case False
    with reg_visit_armed_other[OF Suc.prems False, of st] show ?thesis by simp
  qed
  from Suc.IH[of "reg_visit k st ls" "Suc k"] v show ?case by simp
qed

lemma pass_armed_fire:
  assumes "res_progress st = Finite 1"
  shows "armed j p ls \<Longrightarrow> k \<le> j \<Longrightarrow> j < k + n
     \<Longrightarrow> filter (\<lambda>x. fst x = p) (pass_resolved k n st ls) = [(p, st)]
         \<and> safe_reg j p (pass_reg k n st ls)"
proof (induction n arbitrary: k ls)
  case 0 then show ?case by simp
next
  case (Suc n)
  show ?case
  proof (cases "k = j")
    case True
    note s = reg_visit_armed_self(2)[OF Suc.prems(1) assms]
    from s have s1: "safe_reg j p (reg_visit j st ls)" by (rule conjunct1)
    from s have s2: "visit_resolved j st ls = [(p, st)]" by (elim conjE)
    from pass_safe[OF s1, of "Suc j" n st] s2 True show ?thesis by simp
  next
    case False
    note v = reg_visit_armed_other[OF Suc.prems(1) False, of st]
    have "filter (\<lambda>x. fst x = p) (pass_resolved (Suc k) n st (reg_visit k st ls)) = [(p, st)]
         \<and> safe_reg j p (pass_reg (Suc k) n st (reg_visit k st ls))"
      by (rule Suc.IH[OF v(1)]) (use Suc.prems False in simp_all)
    with v(2) show ?thesis by simp
  qed
qed

lemma pass_armed_invoked:
  "armed j p ls \<Longrightarrow> k \<le> j \<Longrightarrow> j < k + n \<Longrightarrow> (j, Completion j p) \<in> set (pass_invoked k n st ls)"
proof (induction n arbitrary: k ls)
  case 0 then show ?case by simp
next
  case (Suc n)
  show ?case
  proof (cases "k = j")
    case True
    with Suc.prems(1) have "visit_invoked k ls = [(j, Completion j p)]"
      by (simp add: visit_invoked_def armed_def)
    then show ?thesis by simp
  next
    case False
    have "(j, Completion j p) \<in> set (pass_invoked (Suc k) n st (reg_visit k st ls))"
      by (rule Suc.IH[OF reg_visit_armed_other(1)[OF Suc.prems(1) False]])
         (use Suc.prems False in simp_all)
    then show ?thesis by simp
  qed
qed

lemma invoked_Notified: "(k, cb) \<in> set (invoked es) \<Longrightarrow> \<exists>st. Notified k cb st \<in> set es"
  by (induction es rule: invoked.induct) auto

lemma pass_armed_notified:
  assumes "armed j p ls"
  shows "(Notified j (Completion j p) st :: 'i event) \<in> set (pass_events 0 (length ls) st ls)"
proof -
  let ?es = "pass_events 0 (length ls) st ls :: 'i event list"
  have "j < length ls" using assms by (simp add: armed_def)
  then have "(j, Completion j p) \<in> set (pass_invoked 0 (length ls) st ls)"
    using pass_armed_invoked[OF assms, of 0 "length ls" st] by simp
  then have "(j, Completion j p) \<in> set (invoked ?es)" by (simp add: invoked_pass_events)
  then obtain st' where s: "Notified j (Completion j p) st' \<in> set ?es"
    using invoked_Notified by blast
  from pass_events_state[OF s] have "st' = st" by auto
  with s show ?thesis by simp
qed

lemma start_eq:
  "start i0 w
     = (promises w,
        w\<lparr>iter := (iter w)\<lparr>listeners :=
                     (if free_slot (listeners (iter w)) < length (listeners (iter w))
                      then (listeners (iter w))[free_slot (listeners (iter w))
                             := Some (Completion (free_slot (listeners (iter w))) (promises w))]
                      else listeners (iter w)
                             @ [Some (Completion (free_slot (listeners (iter w))) (promises w))])\<rparr>,
          frames := frames w @ [i0], promises := Suc (promises w)\<rparr>)"
  by (simp add: start_def Let_def requestAnimationFrame_def subscribe_eq)

lemma start_armed:
  assumes "safe_reg (free_slot ls) p ls"
  shows "armed (free_slot ls) p
           (if free_slot ls < length ls then ls[free_slot ls := Some (Completion (free_slot ls) p)]
            else ls @ [Some (Completion (free_slot ls) p)])"
proof (cases "free_slot ls < length ls")
  case True
  with assms show ?thesis by (auto simp: armed_def safe_reg_def updated_nth)
next
  case False
  with free_slot_props(1)[of ls] have e: "free_slot ls = length ls" by simp
  with assms show ?thesis by (auto simp: armed_def safe_reg_def nth_append)
qed

lemma fulfilments_tick:
  "fulfilments p (tr @ Update i t # pass_events k n st ls)
     = fulfilments p tr @ map snd (filter (\<lambda>x. fst x = p) (pass_resolved k n st ls))"
  by (simp add: fulfilments_def resolutions_append resolutions_pass_events)

lemma ticks_tick: "ticks (tr @ Update i t # pass_events k n st ls) = Suc (ticks tr)"
  by (simp add: ticks_append ticks_pass_events)

lemma elapsed_cong:
  "nearest w = nearest w' \<Longrightarrow> time (iter w) = time (iter w') \<Longrightarrow> interval (iter w) = interval (iter w')
     \<Longrightarrow> elapsed w n = elapsed w' n"
  by (induction n) (simp_all add: add_double_def)

lemma host_step_running:
  fixes w :: "'i world"
  assumes r: "running j p i0 w1 m w" and m: "m < n"
      and least: "\<forall>m'. 0 < m' \<and> m' < n \<longrightarrow>
            \<not> num_ge (res_progress (func (iter w1) i0 (elapsed w1 m'))) (Finite 1)"
      and reach: "num_ge (res_progress (func (iter w1) i0 (elapsed w1 n))) (Finite 1)"
  shows "running j p i0 w1 m (host_step c w)
         \<or> (Suc m < n \<and> running j p i0 w1 (Suc m) (host_step c w))
         \<or> (Suc m = n \<and> finished j p i0 w1 n (host_step c w))"
proof -
  from r have fr: "frames w = [i0]" and ar: "armed j p (listeners (iter w))"
    and iv: "interval (iter w) = interval (iter w1)" and fu: "func (iter w) = func (iter w1)"
    and nr: "nearest w = nearest w1" and pm: "promises w = promises w1"
    and ti: "time (iter w) = elapsed w1 m"
    and fl: "fulfilments p (trace w) = fulfilments p (trace w1)"
    and tk: "ticks (trace w) = ticks (trace w1) + m"
    by (simp_all add: running_def)
  let ?v = "w\<lparr>frames := []\<rparr>"
  let ?w' = "host_step c w"
  have hs: "?w' = next_tick (fst c) (snd c) i0 ?v" by (simp add: host_step_def fr)
  show ?thesis
  proof (cases "due (fst c) (iter ?v)")
    case False
    then have "?w' = w" by (simp add: hs next_tick_rejected fr[symmetric])
    with r show ?thesis by simp
  next
    case True
    define t where "t = elapsed w1 (Suc m)"
    define st where "st = clamp (func (iter w1) i0 t)"
    let ?ls = "listeners (iter w)"
    let ?es = "pass_events 0 (length ?ls) st ?ls :: 'i event list"
    have t: "add_double ?v (time (iter w)) (interval (iter w)) = t"
    proof -
      have "add_double ?v (time (iter w)) (interval (iter w))
              = add_double w1 (time (iter w)) (interval (iter w))"
        by (rule add_double_cong) (simp add: nr)
      then show ?thesis by (simp add: t_def ti iv)
    qed
    let ?w2 = "w\<lparr>iter := (iter w)\<lparr>lastTick := snd c, time := t, progress := res_progress st,
                                     listeners := pass_reg 0 (length ?ls) st ?ls\<rparr>,
                   frames := [], trace := trace w @ Update i0 t # ?es\<rparr>"
    have nt: "?w' = (if num_ge (res_progress st) (Finite 1) then ?w2 else ?w2\<lparr>frames := [i0]\<rparr>)"
      unfolding hs next_tick_accepted[OF True] by (simp add: Let_def t fu st_def)
    have jl: "j < length ?ls" using ar by (simp add: armed_def)
    show ?thesis
    proof (cases "Suc m < n")
      case True
      have lt: "\<not> num_ge (res_progress (func (iter w1) i0 t)) (Finite 1)"
        unfolding t_def by (rule least[rule_format, of "Suc m"]) (use True in simp)
      then have st: "st = func (iter w1) i0 t" by (simp add: st_def clamp_def)
      have nge: "\<not> num_ge (res_progress st) (Finite 1)" using lt st by simp
      have ne: "res_progress st \<noteq> Finite 1"
      proof
        assume "res_progress st = Finite 1"
        with nge show False by simp
      qed
      note pa = pass_armed_idle[OF ne ar, of 0 "length ?ls"]
      from pa have pa1: "armed j p (pass_reg 0 (length ?ls) st ?ls)" by (rule conjunct1)
      from pa have pa2: "filter (\<lambda>x. fst x = p) (pass_resolved 0 (length ?ls) st ?ls) = []"
        by (rule conjunct2)
      have w': "?w' = ?w2\<lparr>frames := [i0]\<rparr>" using nt nge by simp
      have "running j p i0 w1 (Suc m) ?w'"
        unfolding w' running_def
        by (simp only: t_def[symmetric])
           (simp add: pa1 iv fu nr pm fulfilments_tick pa2 fl ticks_tick tk)
      with True show ?thesis by simp
    next
      case False
      with m have n: "Suc m = n" by simp
      have ge: "num_ge (res_progress (func (iter w1) i0 t)) (Finite 1)"
        using reach unfolding n[symmetric] t_def .
      then have one: "res_progress st = Finite 1" by (simp add: st_def clamp_def)
      have fs: "final_state i0 w1 n = st"
        unfolding final_state_def n[symmetric] st_def t_def ..
      note pf = pass_armed_fire[OF one ar, of 0 "length ?ls"]
      have pf1: "filter (\<lambda>x. fst x = p) (pass_resolved 0 (length ?ls) st ?ls) = [(p, st)]"
        using pf jl by simp
      have pf2: "safe_reg j p (pass_reg 0 (length ?ls) st ?ls)"
        using pf jl by simp
      have nf: "(Notified j (Completion j p) st :: 'i event) \<in> set ?es"
        by (rule pass_armed_notified[OF ar])
      have w': "?w' = ?w2" using nt one by simp
      have "finished j p i0 w1 n ?w'"
        unfolding w' finished_def fs
        using nf by (simp add: fulfilments_tick pf1 pf2 pm fl ticks_tick tk n[symmetric])
      with n show ?thesis by simp
    qed
  qed
qed

lemma host_step_finished: "finished j p i0 w1 n w \<Longrightarrow> host_step c w = w"
  by (simp add: finished_def host_step_def)

lemma run_running:
  fixes w :: "'i world"
  assumes least: "\<forall>m'. 0 < m' \<and> m' < n \<longrightarrow>
            \<not> num_ge (res_progress (func (iter w1) i0 (elapsed w1 m'))) (Finite 1)"
      and reach: "num_ge (res_progress (func (iter w1) i0 (elapsed w1 n))) (Finite 1)"
  shows "running j p i0 w1 m w \<Longrightarrow> m < n
     \<Longrightarrow> (\<exists>m'. m' < n \<and> running j p i0 w1 m' (run cs w)) \<or> finished j p i0 w1 n (run cs w)"
proof (induction cs arbitrary: m w)
  case Nil
  then show ?case by (auto simp: run_def)
next
  case (Cons c cs)
  have r: "run (c # cs) w = run cs (host_step c w)" by (simp add: run_def)
  from host_step_running[OF Cons.prems least reach, of c]
  consider "running j p i0 w1 m (host_step c w)"
    | "Suc m < n" "running j p i0 w1 (Suc m) (host_step c w)"
    | "finished j p i0 w1 n (host_step c w)" by blast
  then show ?case
  proof cases
    case 1 from Cons.IH[OF 1 Cons.prems(2)] show ?thesis unfolding r .
  next
    case 2 from Cons.IH[OF 2(2) 2(1)] show ?thesis unfolding r .
  next
    case 3
    have "run cs (host_step c w) = host_step c w"
    proof (induction cs)
      case Nil show ?case by (simp add: run_def)
    next
      case (Cons c' cs')
      have "run (c' # cs') (host_step c w) = run cs' (host_step c' (host_step c w))"
        by (simp add: run_def)
      also have "host_step c' (host_step c w) = host_step c w"
        by (rule host_step_finished[OF 3])
      finally show ?case using Cons by simp
    qed
    with 3 show ?thesis unfolding r by simp
  qed
qed

lemma run_finished: "finished j p i0 w1 n w \<Longrightarrow> run cs w = w"
proof (induction cs)
  case Nil show ?case by (simp add: run_def)
next
  case (Cons c cs)
  have "run (c # cs) w = run cs (host_step c w)" by (simp add: run_def)
  also have "host_step c w = w" by (rule host_step_finished[OF Cons.prems])
  finally show ?case using Cons by simp
qed

lemma host_step_due:
  fixes w :: "'i world"
  assumes "frames w = [i0]" and "due (fst c) (iter w)"
  shows "lastTick (iter (host_step c w)) = snd c"
    and "rate (iter (host_step c w)) = rate (iter w)"
    and "ticks (trace (host_step c w)) = Suc (ticks (trace w))"
proof -
  have hs: "host_step c w = next_tick (fst c) (snd c) i0 (w\<lparr>frames := []\<rparr>)"
    by (simp add: host_step_def assms(1))
  have d: "due (fst c) (iter (w\<lparr>frames := []\<rparr>))" using assms(2) by simp
  show "lastTick (iter (host_step c w)) = snd c"
    unfolding hs next_tick_accepted[OF d] by (simp add: Let_def)
  show "rate (iter (host_step c w)) = rate (iter w)"
    unfolding hs next_tick_accepted[OF d] by (simp add: Let_def)
  show "ticks (trace (host_step c w)) = Suc (ticks (trace w))"
    unfolding hs next_tick_accepted[OF d] by (simp add: Let_def ticks_tick)
qed

lemma run_spaced:
  fixes w :: "'i world"
  assumes least: "\<forall>m'. 0 < m' \<and> m' < n \<longrightarrow>
            \<not> num_ge (res_progress (func (iter w1) i0 (elapsed w1 m'))) (Finite 1)"
      and reach: "num_ge (res_progress (func (iter w1) i0 (elapsed w1 n))) (Finite 1)"
  shows "running j p i0 w1 m w \<Longrightarrow> m < n \<Longrightarrow> rate (iter w) \<noteq> 0
     \<Longrightarrow> spaced (lastTick (iter w)) (1000 / rate (iter w)) cs \<Longrightarrow> n \<le> m + length cs
     \<Longrightarrow> finished j p i0 w1 n (run cs w)"
proof (induction cs arbitrary: m w)
  case Nil
  then show ?case by simp
next
  case (Cons c cs)
  let ?w' = "host_step c w"
  have r: "run (c # cs) w = run cs ?w'" by (simp add: run_def)
  have fr: "frames w = [i0]" and tk: "ticks (trace w) = ticks (trace w1) + m"
    using Cons.prems(1) by (simp_all add: running_def)
  have d: "due (fst c) (iter w)" using Cons.prems(3,4) by (simp add: due_def)
  note a = host_step_due[OF fr d]
  from host_step_running[OF Cons.prems(1,2) least reach, of c]
  consider "running j p i0 w1 m ?w'"
    | "Suc m < n" "running j p i0 w1 (Suc m) ?w'"
    | "finished j p i0 w1 n ?w'" by blast
  then show ?case
  proof cases
    case 1
    then have "ticks (trace ?w') = ticks (trace w1) + m" by (simp add: running_def)
    with a(3) tk show ?thesis by simp
  next
    case 2
    have "finished j p i0 w1 n (run cs ?w')"
    proof (rule Cons.IH[OF 2(2) 2(1)])
      show "rate (iter ?w') \<noteq> 0" using a(2) Cons.prems(3) by simp
      show "spaced (lastTick (iter ?w')) (1000 / rate (iter ?w')) cs"
        using Cons.prems(4) by (simp add: a)
      show "n \<le> Suc m + length cs" using Cons.prems(5) by simp
    qed
    then show ?thesis unfolding r .
  next
    case 3
    then show ?thesis unfolding r by (simp add: run_finished[OF 3])
  qed
qed

text \<open>
  Once no listener holds the \<open>resolve\<close> of a promise, it is not called again, whatever the
  page does.
\<close>

lemma resolves_meddles:
  "resolves p cb \<Longrightarrow> meddles j p cb"
  "resolves_act p a \<Longrightarrow> meddles_act j p a"
  by (induction j p cb and j p a rule: meddles_meddles_act.induct) auto

lemma safe_reg_quiet: "safe_reg j p ls \<Longrightarrow> quiet p ls"
  unfolding safe_reg_def quiet_def by (metis in_set_conv_nth resolves_meddles(1))

lemma quiet_update: "quiet p ls \<Longrightarrow> (case v of None \<Rightarrow> True | Some cb \<Rightarrow> \<not> resolves p cb) \<Longrightarrow> quiet p (ls[i := v])"
  unfolding quiet_def
proof (intro allI impI)
  fix cb
  assume q: "\<forall>cb. Some cb \<in> set ls \<longrightarrow> \<not> resolves p cb"
    and v: "case v of None \<Rightarrow> True | Some cb \<Rightarrow> \<not> resolves p cb"
    and m: "Some cb \<in> set (ls[i := v])"
  from m set_update_subset_insert[of ls i v] have "Some cb = v \<or> Some cb \<in> set ls" by auto
  then show "\<not> resolves p cb"
  proof
    assume "Some cb = v" with v show ?thesis by (cases v) auto
  next
    assume "Some cb \<in> set ls" with q show ?thesis by simp
  qed
qed

lemma quiet_append: "quiet p ls \<Longrightarrow> \<not> resolves p cb \<Longrightarrow> quiet p (ls @ [Some cb])"
  by (auto simp: quiet_def)

lemma reg_exec_quiet:
  assumes "\<not> resolves_act p a" and "quiet p ls"
  shows "quiet p (reg_exec a ls)"
proof (cases a)
  case (Unsubscribe i)
  with quiet_update[OF assms(2), of None i] show ?thesis by simp
next
  case (Subscribe cb)
  with assms(1) have cb: "\<not> resolves p cb" by simp
  show ?thesis
  proof (cases "empty_slot ls")
    case None
    with quiet_append[OF assms(2) cb] show ?thesis by (simp add: Subscribe)
  next
    case (Some e)
    with quiet_update[OF assms(2), of "Some cb" e] cb show ?thesis by (simp add: Subscribe)
  qed
qed

lemma fold_reg_exec_quiet:
  "\<forall>a \<in> set body. \<not> resolves_act p a \<Longrightarrow> quiet p ls \<Longrightarrow> quiet p (fold reg_exec body ls)"
  by (induction body arbitrary: ls) (simp_all add: reg_exec_quiet)

lemma cb_reg_quiet:
  assumes "\<not> resolves p cb" and "quiet p ls"
  shows "quiet p (cb_reg cb st ls)"
proof (cases cb)
  case (Listener tag body)
  with assms show ?thesis by (simp add: fold_reg_exec_quiet)
next
  case (Completion i q)
  with quiet_update[OF assms(2), of None i] assms(2) show ?thesis by simp
qed

lemma cb_resolved_quiet:
  "\<not> resolves p cb \<Longrightarrow> filter (\<lambda>x. fst x = p) (cb_resolved cb st) = []"
  by (cases cb) auto

lemma reg_visit_quiet:
  assumes "quiet p ls"
  shows "quiet p (reg_visit k st ls)"
    and "filter (\<lambda>x. fst x = p) (visit_resolved k st ls) = []"
proof -
  have "quiet p (reg_visit k st ls) \<and> filter (\<lambda>x. fst x = p) (visit_resolved k st ls) = []"
  proof (cases "k < length ls")
    case False
    then have "reg_visit k st ls = ls" "visit_resolved k st ls = []"
      by (simp_all add: reg_visit_def visit_resolved_def)
    with assms show ?thesis by simp
  next
    case True
    show ?thesis
    proof (cases "ls ! k")
      case None
      with True have "reg_visit k st ls = ls" "visit_resolved k st ls = []"
        by (simp_all add: reg_visit_def visit_resolved_def)
      with assms show ?thesis by simp
    next
      case (Some cb)
      with True have "Some cb \<in> set ls" by (metis nth_mem)
      with assms have n: "\<not> resolves p cb" by (simp add: quiet_def)
      have "reg_visit k st ls = cb_reg cb st ls" "visit_resolved k st ls = cb_resolved cb st"
        using Some True by (simp_all add: reg_visit_def visit_resolved_def)
      with cb_reg_quiet[OF n assms, of st] cb_resolved_quiet[OF n, of st] show ?thesis by simp
    qed
  qed
  then show "quiet p (reg_visit k st ls)"
    and "filter (\<lambda>x. fst x = p) (visit_resolved k st ls) = []" by simp_all
qed

lemma pass_quiet:
  "quiet p ls \<Longrightarrow> quiet p (pass_reg k n st ls)
      \<and> filter (\<lambda>x. fst x = p) (pass_resolved k n st ls) = []"
proof (induction n arbitrary: k ls)
  case 0 then show ?case by simp
next
  case (Suc n)
  note v = reg_visit_quiet[OF Suc.prems, of k st]
  from Suc.IH[OF v(1), of "Suc k"] v(2) show ?case by simp
qed

lemma next_tick_settled:
  fixes w :: "'i world"
  assumes "quiet p (listeners (iter w))"
  shows "quiet p (listeners (iter (next_tick now now' i w)))
         \<and> promises (next_tick now now' i w) = promises w
         \<and> fulfilments p (trace (next_tick now now' i w)) = fulfilments p (trace w)"
proof (cases "due now (iter w)")
  case False
  with assms show ?thesis by (simp add: next_tick_rejected)
next
  case True
  let ?ls = "listeners (iter w)"
  let ?st = "clamp (func (iter w) i (add_double w (time (iter w)) (interval (iter w))))"
  note q = pass_quiet[OF assms, of 0 "length ?ls" ?st]
  from q have q1: "quiet p (pass_reg 0 (length ?ls) ?st ?ls)" by (rule conjunct1)
  from q have q2: "filter (\<lambda>x. fst x = p) (pass_resolved 0 (length ?ls) ?st ?ls) = []"
    by (rule conjunct2)
  show ?thesis
    by (simp add: next_tick_accepted[OF True] Let_def q1 fulfilments_tick q2)
qed

lemma act_settled:
  fixes w :: "'i world"
  assumes "settled p vs w" and "permitted p a"
  shows "settled p vs (act a w)"
proof -
  from assms(1) have q: "quiet p (listeners (iter w))" and pl: "p < promises w"
    and f: "fulfilments p (trace w) = vs" by (simp_all add: settled_def)
  show ?thesis
  proof (cases a)
    case (Frame c)
    show ?thesis
    proof (cases "frames w")
      case Nil
      with assms(1) show ?thesis by (simp add: Frame host_step_def)
    next
      case (Cons i rest)
      have "quiet p (listeners (iter (w\<lparr>frames := rest\<rparr>)))" using q by simp
      from next_tick_settled[OF this, of "fst c" "snd c" i] pl f
      show ?thesis by (simp add: Frame host_step_def Cons settled_def)
    qed
  next
    case (Start i)
    have n: "\<not> resolves p (Completion (free_slot (listeners (iter w))) (promises w))"
      using pl by simp
    have "quiet p (if free_slot (listeners (iter w)) < length (listeners (iter w))
                   then (listeners (iter w))[free_slot (listeners (iter w))
                          := Some (Completion (free_slot (listeners (iter w))) (promises w))]
                   else listeners (iter w)
                          @ [Some (Completion (free_slot (listeners (iter w))) (promises w))])"
      using quiet_update[OF q, of "Some (Completion (free_slot (listeners (iter w))) (promises w))"]
        quiet_append[OF q n] n by simp
    with pl f show ?thesis by (simp add: Start start_eq settled_def)
  next
    case Reset
    with q pl f show ?thesis by (simp add: settled_def reset_def)
  next
    case ResetListeners
    with pl f show ?thesis by (simp add: settled_def resetListeners_def quiet_def)
  next
    case ResetAll
    with pl f show ?thesis by (simp add: settled_def resetAll_def resetListeners_def quiet_def)
  next
    case (Sub cb)
    with assms(2) have n: "\<not> resolves p cb" by simp
    have "quiet p (if free_slot (listeners (iter w)) < length (listeners (iter w))
                   then (listeners (iter w))[free_slot (listeners (iter w)) := Some cb]
                   else listeners (iter w) @ [Some cb])"
      using quiet_update[OF q, of "Some cb"] quiet_append[OF q n] n by simp
    with pl f show ?thesis by (simp add: Sub subscribe_eq settled_def)
  next
    case (Unsub i)
    with quiet_update[OF q, of None i] pl f show ?thesis by (simp add: settled_def unsubscribe_def)
  qed
qed

lemma fold_act_settled:
  fixes w :: "'i world"
  shows "settled p vs w \<Longrightarrow> list_all (permitted p) acts \<Longrightarrow> settled p vs (fold act acts w)"
  by (induction acts arbitrary: w) (simp_all add: act_settled)

text \<open>
  Claim C1. \<open>start\<close> is called with no frame callback pending, on a registry none of
  whose listeners holds the unsubscribe closure of the slot \<open>start\<close> is about to use (or the
  \<open>resolve\<close> of the promise it is about to create). The update function reaches a
  progress of 1 or more at the \<open>n\<close>-th accepted tick and not before (a progress of \<open>NaN\<close>
  is not one of 1 or more), at the elapsed times that the loop computes by adding the
  interval tick after tick. Then, whatever the clock readings of the frames the host
  runs, one of two holds. Either fewer than \<open>n\<close> ticks have been accepted, \<open>resolve\<close> has
  not been called and the completion listener is still in its slot. Or exactly \<open>n\<close> ticks
  have been accepted, \<open>resolve\<close> has been called exactly once, no frame callback is pending
  any more, the value passed to \<open>resolve\<close> is the state with which the completion listener
  was notified in the last tick, which is the result of the update function with its
  progress set to exactly 1, and the completion listener has unsubscribed itself: no
  listener of the registry holds the \<open>resolve\<close> of the promise, and \<open>resolve\<close> is never
  called a second time, whatever the page does next (more frames, further calls of
  \<open>start\<close>, resets, subscriptions). And the promise is fulfilled: when the rate is not
  zero and each of at least \<open>n\<close> frames comes \<open>1000 / rate\<close> milliseconds or more after
  the tick before it, the run ends in the second case.
\<close>

theorem start_fulfils_once:
  fixes w0 :: "'i world"
  assumes idle: "frames w0 = []"
      and safe: "\<forall>cb. Some cb \<in> set (listeners (iter w0))
                   \<longrightarrow> \<not> meddles (free_slot (listeners (iter w0))) (promises w0) cb"
      and pos: "0 < n"
      and least: "\<forall>m. 0 < m \<and> m < n \<longrightarrow>
            \<not> num_ge (res_progress (func (iter w0) i0 (elapsed w0 m))) (Finite 1)"
      and reach: "num_ge (res_progress (func (iter w0) i0 (elapsed w0 n))) (Finite 1)"
  shows "fst (start i0 w0) = promises w0
   \<and> (fulfilments (promises w0) (trace (run cs (snd (start i0 w0))))
          = fulfilments (promises w0) (trace w0)
        \<and> ticks (trace (run cs (snd (start i0 w0)))) < ticks (trace w0) + n
        \<and> free_slot (listeners (iter w0)) < length (listeners (iter (run cs (snd (start i0 w0)))))
        \<and> listeners (iter (run cs (snd (start i0 w0)))) ! free_slot (listeners (iter w0))
            = Some (Completion (free_slot (listeners (iter w0))) (promises w0))
      \<or> fulfilments (promises w0) (trace (run cs (snd (start i0 w0))))
          = fulfilments (promises w0) (trace w0) @ [final_state i0 w0 n]
        \<and> ticks (trace (run cs (snd (start i0 w0)))) = ticks (trace w0) + n
        \<and> frames (run cs (snd (start i0 w0))) = []
        \<and> Notified (free_slot (listeners (iter w0)))
             (Completion (free_slot (listeners (iter w0))) (promises w0)) (final_state i0 w0 n)
             \<in> set (trace (run cs (snd (start i0 w0))))
        \<and> (\<forall>cb. Some cb \<in> set (listeners (iter (run cs (snd (start i0 w0)))))
               \<longrightarrow> \<not> resolves (promises w0) cb)
        \<and> (list_all (permitted (promises w0)) acts
             \<longrightarrow> fulfilments (promises w0) (trace (fold act acts (run cs (snd (start i0 w0)))))
                  = fulfilments (promises w0) (trace w0) @ [final_state i0 w0 n]))
   \<and> (rate (iter w0) \<noteq> 0 \<and> spaced (lastTick (iter w0)) (1000 / rate (iter w0)) cs \<and> n \<le> length cs
        \<longrightarrow> fulfilments (promises w0) (trace (run cs (snd (start i0 w0))))
             = fulfilments (promises w0) (trace w0) @ [final_state i0 w0 n])
   \<and> final_state i0 w0 n = (func (iter w0) i0 (elapsed w0 n))\<lparr>res_progress := Finite 1\<rparr>
   \<and> res_progress (final_state i0 w0 n) = Finite 1"
proof -
  let ?j = "free_slot (listeners (iter w0))"
  let ?p = "promises w0"
  let ?w1 = "snd (start i0 w0)"
  let ?W = "run cs ?w1"
  let ?F = "fulfilments ?p (trace w0) @ [final_state i0 w0 n]"
  have sr: "safe_reg ?j ?p (listeners (iter w0))"
    using safe by (auto simp: safe_reg_def dest: nth_mem)
  have f1: "frames ?w1 = [i0]" "trace ?w1 = trace w0" "interval (iter ?w1) = interval (iter w0)"
       "func (iter ?w1) = func (iter w0)" "time (iter ?w1) = time (iter w0)"
       "nearest ?w1 = nearest w0" "promises ?w1 = Suc (promises w0)"
    by (simp_all add: start_eq idle)
  have f2: "rate (iter ?w1) = rate (iter w0)" "lastTick (iter ?w1) = lastTick (iter w0)"
    by (simp_all add: start_eq)
  have el: "elapsed ?w1 k = elapsed w0 k" for k
    by (rule elapsed_cong) (simp_all add: f1)
  have ar: "armed ?j ?p (listeners (iter ?w1))"
    using start_armed[OF sr] by (simp add: start_eq)
  have r0: "running ?j ?p i0 ?w1 0 ?w1"
    by (simp add: running_def ar f1(1))
  have fs: "final_state i0 ?w1 n = final_state i0 w0 n"
    by (simp add: final_state_def f1 el)
  have least1: "\<forall>m'. 0 < m' \<and> m' < n \<longrightarrow>
            \<not> num_ge (res_progress (func (iter ?w1) i0 (elapsed ?w1 m'))) (Finite 1)"
    using least by (simp only: f1 el)
  have reach1: "num_ge (res_progress (func (iter ?w1) i0 (elapsed ?w1 n))) (Finite 1)"
    using reach by (simp only: f1 el)
  from run_running[OF least1 reach1 r0 pos, of cs]
  consider m' where "m' < n" "running ?j ?p i0 ?w1 m' ?W"
    | "finished ?j ?p i0 ?w1 n ?W" by blast
  then have d: "fulfilments ?p (trace ?W) = fulfilments ?p (trace w0)
        \<and> ticks (trace ?W) < ticks (trace w0) + n
        \<and> ?j < length (listeners (iter ?W))
        \<and> listeners (iter ?W) ! ?j = Some (Completion ?j ?p)
      \<or> fulfilments ?p (trace ?W) = ?F
        \<and> ticks (trace ?W) = ticks (trace w0) + n
        \<and> frames ?W = []
        \<and> Notified ?j (Completion ?j ?p) (final_state i0 w0 n) \<in> set (trace ?W)
        \<and> (\<forall>cb. Some cb \<in> set (listeners (iter ?W)) \<longrightarrow> \<not> resolves ?p cb)
        \<and> (list_all (permitted ?p) acts \<longrightarrow> fulfilments ?p (trace (fold act acts ?W)) = ?F)"
  proof cases
    case 1
    then show ?thesis by (simp add: running_def armed_def f1)
  next
    case 2
    then have a: "frames ?W = []" and b: "safe_reg ?j ?p (listeners (iter ?W))"
      and c: "promises ?W = promises ?w1" and e: "fulfilments ?p (trace ?W) = ?F"
      and g: "ticks (trace ?W) = ticks (trace w0) + n"
      and h: "Notified ?j (Completion ?j ?p) (final_state i0 w0 n) \<in> set (trace ?W)"
      unfolding finished_def fs by (simp_all add: f1)
    from safe_reg_quiet[OF b] have q: "quiet ?p (listeners (iter ?W))" .
    then have q': "\<forall>cb. Some cb \<in> set (listeners (iter ?W)) \<longrightarrow> \<not> resolves ?p cb"
      by (simp add: quiet_def)
    have st: "settled ?p ?F ?W" using q c e by (simp add: settled_def f1)
    have l: "fulfilments ?p (trace (fold act acts ?W)) = ?F" if "list_all (permitted ?p) acts"
      using fold_act_settled[OF st that] by (simp add: settled_def)
    from a e g h q' l show ?thesis by blast
  qed
  have v: "final_state i0 w0 n = (func (iter w0) i0 (elapsed w0 n))\<lparr>res_progress := Finite 1\<rparr>"
    using reach by (simp add: final_state_def clamp_def)
  have p: "fst (start i0 w0) = promises w0" by (simp add: start_eq)
  from v have o: "res_progress (final_state i0 w0 n) = Finite 1" by simp
  have l: "fulfilments ?p (trace ?W) = ?F"
    if "rate (iter w0) \<noteq> 0" "spaced (lastTick (iter w0)) (1000 / rate (iter w0)) cs" "n \<le> length cs"
  proof -
    have "finished ?j ?p i0 ?w1 n ?W"
      by (rule run_spaced[OF least1 reach1 r0 pos]) (use that in \<open>simp_all add: f2\<close>)
    then show ?thesis unfolding finished_def fs by (simp add: f1)
  qed
  from p d l v o show ?thesis by blast
qed

text \<open>
  The claim on an iterator with one observer, a step of three quarters and an update
  function that sets a style and whose progress is the elapsed time: four frames, the
  second too early; the second tick overshoots, and the promise is resolved with the
  clamped state. Then, as on the demonstration page, a reset and a second animation on
  the same iterator, whose promise is the only one resolved by it.
\<close>

lemma watched_styled_world:
  "watched_world styled_args
     = \<lparr>iter = \<lparr>args = styled_args, interval = 3 / 4, rate = 50, progress = Finite 0, time = 0,
                lastTick = 0,
                func = (\<lambda>initialState t. \<lparr>styles = [(''left'', ''40px'')], res_progress = Finite t\<rparr>),
                listeners = [Some (Listener 0 [])]\<rparr>,
        frames = [], promises = 0, trace = [], nearest = (\<lambda>x. x)\<rparr>"
  by (simp add: watched_world_def idle_world_def new_AnimationIterator_def reset_def
      styled_args_def subscribe_def conditionalDefault_def or_else_def
      DEFAULT_PROGRESS_def DEFAULT_TIME_def DEFAULT_LAST_TICK_def)

theorem start_fulfils_once_witness:
  "frames (watched_world styled_args) = []
   \<and> list_all (\<lambda>s. case s of None \<Rightarrow> True | Some cb \<Rightarrow> \<not> meddles 1 0 cb)
        (listeners (iter (watched_world styled_args)))
   \<and> free_slot (listeners (iter (watched_world styled_args))) = 1
   \<and> promises (watched_world styled_args) = 0
   \<and> elapsed (watched_world styled_args) 1 = 3 / 4
   \<and> elapsed (watched_world styled_args) 2 = 3 / 2
   \<and> \<not> num_ge (res_progress (func (iter (watched_world styled_args)) ()
                   (elapsed (watched_world styled_args) 1))) (Finite 1)
   \<and> num_ge (res_progress (func (iter (watched_world styled_args)) ()
                   (elapsed (watched_world styled_args) 2))) (Finite 1)
   \<and> fst (start () (watched_world styled_args)) = 0
   \<and> fulfilments 0 (trace (run [(1000, 1001), (1005, 1006), (2000, 2001), (3000, 3001)]
                              (snd (start () (watched_world styled_args)))))
       = [\<lparr>styles = [(''left'', ''40px'')], res_progress = Finite 1\<rparr>]
   \<and> ticks (trace (run [(1000, 1001), (1005, 1006), (2000, 2001), (3000, 3001)]
                       (snd (start () (watched_world styled_args))))) = 2
   \<and> frames (run [(1000, 1001), (1005, 1006), (2000, 2001), (3000, 3001)]
                (snd (start () (watched_world styled_args)))) = []
   \<and> listeners (iter (run [(1000, 1001), (1005, 1006), (2000, 2001), (3000, 3001)]
                (snd (start () (watched_world styled_args))))) = [Some (Listener 0 []), None]
   \<and> list_all (permitted 0) [Reset, Start (), Frame (4000, 4001), Frame (5000, 5001)]
   \<and> fulfilments 0 (trace (fold act [Reset, Start (), Frame (4000, 4001), Frame (5000, 5001)]
        (run [(1000, 1001), (1005, 1006), (2000, 2001), (3000, 3001)]
             (snd (start () (watched_world styled_args))))))
       = [\<lparr>styles = [(''left'', ''40px'')], res_progress = Finite 1\<rparr>]
   \<and> map fst (resolutions (trace (fold act [Reset, Start (), Frame (4000, 4001), Frame (5000, 5001)]
        (run [(1000, 1001), (1005, 1006), (2000, 2001), (3000, 3001)]
             (snd (start () (watched_world styled_args))))))) = [0, 1]
   \<and> spaced (lastTick (iter (watched_world styled_args)))
        (1000 / rate (iter (watched_world styled_args))) [(20, 20), (40, 41)]
   \<and> fulfilments 0 (trace (run [(20, 20), (40, 41)] (snd (start () (watched_world styled_args)))))
       = [\<lparr>styles = [(''left'', ''40px'')], res_progress = Finite 1\<rparr>]"
proof -
  let ?w = "watched_world styled_args"
  let ?cs = "[(1000, 1001), (1005, 1006), (2000, 2001), (3000, 3001)] :: (real \<times> real) list"
  let ?acts = "[Reset, Start (), Frame (4000, 4001), Frame (5000, 5001)] :: unit page_action list"
  let ?W = "run ?cs (snd (start () ?w))"
  have h1: "frames ?w = []" by (simp add: watched_styled_world)
  have j: "free_slot (listeners (iter ?w)) = 1" "promises ?w = 0"
    by (simp_all add: watched_styled_world free_slot_def)
  have h2: "\<forall>cb. Some cb \<in> set (listeners (iter ?w))
                   \<longrightarrow> \<not> meddles (free_slot (listeners (iter ?w))) (promises ?w) cb"
    unfolding j by (simp add: watched_styled_world)
  have el: "elapsed ?w 1 = 3 / 4" "elapsed ?w 2 = 3 / 2"
    by (simp_all add: numeral_2_eq_2 watched_styled_world add_double_def)
  have h3: "0 < (2::nat)" by simp
  have h4: "\<forall>m. 0 < m \<and> m < (2::nat) \<longrightarrow>
            \<not> num_ge (res_progress (func (iter ?w) () (elapsed ?w m))) (Finite 1)"
  proof (intro allI impI)
    fix m :: nat assume "0 < m \<and> m < 2"
    then have "m = 1" by simp
    then show "\<not> num_ge (res_progress (func (iter ?w) () (elapsed ?w m))) (Finite 1)"
      by (simp add: watched_styled_world DEFAULT_FUNC_def add_double_def)
  qed
  have h5: "num_ge (res_progress (func (iter ?w) () (elapsed ?w 2))) (Finite 1)"
    by (simp add: el) (simp add: watched_styled_world DEFAULT_FUNC_def)
  have fsv: "final_state () ?w 2 = \<lparr>styles = [(''left'', ''40px'')], res_progress = Finite 1\<rparr>"
    by (simp add: final_state_def el) (simp add: watched_styled_world DEFAULT_FUNC_def clamp_def)
  have tw: "fulfilments 0 (trace ?w) = []" by (simp add: watched_styled_world fulfilments_def)
  have w1: "snd (start () ?w)
     = \<lparr>iter = \<lparr>args = styled_args, interval = 3 / 4, rate = 50, progress = Finite 0, time = 0,
                lastTick = 0,
                func = (\<lambda>initialState t. \<lparr>styles = [(''left'', ''40px'')], res_progress = Finite t\<rparr>),
                listeners = [Some (Listener 0 []), Some (Completion 1 0)]\<rparr>,
        frames = [()], promises = 1, trace = [], nearest = (\<lambda>x. x)\<rparr>"
    by (simp add: start_def requestAnimationFrame_def subscribe_def watched_styled_world
        free_slot_def)
  have W: "?W
     = \<lparr>iter = \<lparr>args = styled_args, interval = 3 / 4, rate = 50, progress = Finite 1, time = 3 / 2,
                lastTick = 2001,
                func = (\<lambda>initialState t. \<lparr>styles = [(''left'', ''40px'')], res_progress = Finite t\<rparr>),
                listeners = [Some (Listener 0 []), None]\<rparr>,
        frames = [], promises = 1,
        trace = [Update () (3 / 4),
                 Notified 0 (Listener 0 []) \<lparr>styles = [(''left'', ''40px'')], res_progress = Finite (3 / 4)\<rparr>,
                 Notified 1 (Completion 1 0) \<lparr>styles = [(''left'', ''40px'')], res_progress = Finite (3 / 4)\<rparr>,
                 Update () (3 / 2),
                 Notified 0 (Listener 0 []) \<lparr>styles = [(''left'', ''40px'')], res_progress = Finite 1\<rparr>,
                 Notified 1 (Completion 1 0) \<lparr>styles = [(''left'', ''40px'')], res_progress = Finite 1\<rparr>,
                 Resolved 0 \<lparr>styles = [(''left'', ''40px'')], res_progress = Finite 1\<rparr>],
        nearest = (\<lambda>x. x)\<rparr>"
    unfolding w1
    by (simp add: run_def host_step_def next_tick_def due_def clamp_def DEFAULT_FUNC_def
        forEach_def visit_def emit_def requestAnimationFrame_def unsubscribe_def Let_def
        add_double_def)
  have k: "ticks (trace ?W) = 2" "listeners (iter ?W) = [Some (Listener 0 []), None]"
    by (simp_all add: W)
  have sa: "map fst (resolutions (trace (fold act ?acts ?W))) = [0, 1]"
    unfolding W
    by (simp add: styled_args_def reset_def conditionalDefault_def or_else_def
        DEFAULT_STEP_INTERVAL_def DEFAULT_FRAME_RATE_def DEFAULT_PROGRESS_def DEFAULT_TIME_def
        DEFAULT_LAST_TICK_def start_def free_slot_def subscribe_def
        host_step_def next_tick_def due_def clamp_def DEFAULT_FUNC_def
        forEach_def visit_def emit_def requestAnimationFrame_def unsubscribe_def Let_def
        add_double_def)
  have pa: "list_all (permitted 0) ?acts" by simp
  note th = start_fulfils_once[OF h1 h2 h3 h4 h5, of ?cs ?acts]
  from th have c: "fst (start () ?w) = promises ?w" by (rule conjunct1)
  from th have d: "fulfilments (promises ?w) (trace ?W) = fulfilments (promises ?w) (trace ?w)
        \<and> ticks (trace ?W) < ticks (trace ?w) + 2
        \<and> free_slot (listeners (iter ?w)) < length (listeners (iter ?W))
        \<and> listeners (iter ?W) ! free_slot (listeners (iter ?w))
            = Some (Completion (free_slot (listeners (iter ?w))) (promises ?w))
      \<or> fulfilments (promises ?w) (trace ?W)
          = fulfilments (promises ?w) (trace ?w) @ [final_state () ?w 2]
        \<and> ticks (trace ?W) = ticks (trace ?w) + 2
        \<and> frames ?W = []
        \<and> Notified (free_slot (listeners (iter ?w)))
             (Completion (free_slot (listeners (iter ?w))) (promises ?w)) (final_state () ?w 2)
             \<in> set (trace ?W)
        \<and> (\<forall>cb. Some cb \<in> set (listeners (iter ?W)) \<longrightarrow> \<not> resolves (promises ?w) cb)
        \<and> (list_all (permitted (promises ?w)) ?acts
             \<longrightarrow> fulfilments (promises ?w) (trace (fold act ?acts ?W))
                  = fulfilments (promises ?w) (trace ?w) @ [final_state () ?w 2])"
    by (elim conjE)
  have nl: "listeners (iter ?W) ! 1 \<noteq> Some (Completion 1 0)" by (simp add: k)
  from d nl have e: "fulfilments 0 (trace ?W) = [\<lparr>styles = [(''left'', ''40px'')], res_progress = Finite 1\<rparr>]"
     "frames ?W = []"
     "list_all (permitted 0) ?acts
        \<longrightarrow> fulfilments 0 (trace (fold act ?acts ?W)) = [\<lparr>styles = [(''left'', ''40px'')], res_progress = Finite 1\<rparr>]"
    unfolding j fsv tw by auto
  from e(3) pa have e3: "fulfilments 0 (trace (fold act ?acts ?W)) = [\<lparr>styles = [(''left'', ''40px'')], res_progress = Finite 1\<rparr>]"
    by blast
  have m: "list_all (\<lambda>s. case s of None \<Rightarrow> True | Some cb \<Rightarrow> \<not> meddles 1 0 cb) (listeners (iter ?w))"
    by (simp add: watched_styled_world)
  have l: "\<not> num_ge (res_progress (func (iter ?w) () (elapsed ?w 1))) (Finite 1)"
    using h4[rule_format, of 1] by simp
  have c': "fst (start () ?w) = 0" using c j(2) by simp
  have sp: "spaced (lastTick (iter ?w)) (1000 / rate (iter ?w)) [(20, 20), (40, 41)]"
    by (simp add: watched_styled_world)
  have "rate (iter ?w) \<noteq> 0" by (simp add: watched_styled_world)
  with start_fulfils_once[OF h1 h2 h3 h4 h5, of "[(20, 20), (40, 41)]" "[]"] sp
  have "fulfilments (promises ?w) (trace (run [(20, 20), (40, 41)] (snd (start () ?w))))
          = fulfilments (promises ?w) (trace ?w) @ [final_state () ?w 2]"
    by simp
  then have q: "fulfilments 0 (trace (run [(20, 20), (40, 41)] (snd (start () ?w))))
       = [\<lparr>styles = [(''left'', ''40px'')], res_progress = Finite 1\<rparr>]"
    unfolding j fsv tw by simp
  show ?thesis by (intro conjI) (rule h1 m j el l h5 c' e(1,2) k pa e3 sa sp q)+
qed

end
